theory Spec2Isabelle
  imports Main "HOL-Library.Word" "HOL-Library.AList" "HOL-Library.Multiset"
    "HOL-Library.Sublist"
begin

unbundle bit_operations_syntax

section \<open>Strings, runes and bytes\<close>

text \<open>
  A Go string is a sequence of bytes; \<^typ>\<open>string\<close> (a list of 8-bit characters) models
  it as it is.  The functions of parse.go and \<open>strings.ToLower\<close> do not look at bytes:
  \<open>for _, r := range s\<close>, \<open>strings.TrimSpace\<close> and \<open>strings.ToLower\<close> decode the
  string into runes (Unicode code points) first.  Those functions are modelled on the
  decoded text, a list of code points.
\<close>

type_synonym rune = nat

text \<open>
  The decoding is that of UTF-8, as \<open>utf8.DecodeRune\<close> does it: \<open>DecodeRune p\<close> is the
  first rune of the bytes \<open>p\<close> and the number of bytes it takes.  A byte that starts no
  well-formed sequence (a stray continuation byte, an overlong form, a surrogate, a value
  above \<open>U+10FFFF\<close>, a sequence cut short) is the rune \<open>U+FFFD\<close> of width 1.  The second
  byte of a sequence has a narrower range after \<open>0xE0\<close>, \<open>0xED\<close>, \<open>0xF0\<close> and \<open>0xF4\<close>.
\<close>

definition RuneError :: rune where
  "RuneError = 0xFFFD"

definition continuation :: "nat \<Rightarrow> bool" where
  "continuation b \<longleftrightarrow> 0x80 \<le> b \<and> b \<le> 0xBF"

definition second :: "nat \<Rightarrow> nat \<Rightarrow> bool" where
  "second b0 b1 \<longleftrightarrow>
     (if b0 = 0xE0 then 0xA0 else if b0 = 0xF0 then 0x90 else 0x80) \<le> b1 \<and>
     b1 \<le> (if b0 = 0xED then 0x9F else if b0 = 0xF4 then 0x8F else 0xBF)"

definition DecodeRune :: "nat list \<Rightarrow> rune \<times> nat" where
  "DecodeRune p =
     (case p of
        [] \<Rightarrow> (RuneError, 0)
      | b0 # p1 \<Rightarrow>
          if b0 < 0x80 then (b0, 1)
          else if 0xC2 \<le> b0 \<and> b0 \<le> 0xDF then
            (case p1 of
               b1 # _ \<Rightarrow>
                 if continuation b1 then ((b0 - 0xC0) * 64 + (b1 - 0x80), 2)
                 else (RuneError, 1)
             | _ \<Rightarrow> (RuneError, 1))
          else if 0xE0 \<le> b0 \<and> b0 \<le> 0xEF then
            (case p1 of
               b1 # b2 # _ \<Rightarrow>
                 if second b0 b1 \<and> continuation b2
                 then ((b0 - 0xE0) * 4096 + (b1 - 0x80) * 64 + (b2 - 0x80), 3)
                 else (RuneError, 1)
             | _ \<Rightarrow> (RuneError, 1))
          else if 0xF0 \<le> b0 \<and> b0 \<le> 0xF4 then
            (case p1 of
               b1 # b2 # b3 # _ \<Rightarrow>
                 if second b0 b1 \<and> continuation b2 \<and> continuation b3
                 then ((b0 - 0xF0) * 262144 + (b1 - 0x80) * 4096 + (b2 - 0x80) * 64
                       + (b3 - 0x80), 4)
                 else (RuneError, 1)
             | _ \<Rightarrow> (RuneError, 1))
          else (RuneError, 1))"

text \<open>The loop \<open>for _, r := range s\<close>: one rune after the other, each of its width.\<close>

fun decodeRunes :: "nat list \<Rightarrow> rune list" where
  "decodeRunes [] = []"
| "decodeRunes (b # bs) =
     fst (DecodeRune (b # bs)) # decodeRunes (drop (snd (DecodeRune (b # bs)) - 1) bs)"

definition runes :: "string \<Rightarrow> rune list" where
  "runes s = decodeRunes (map of_char s)"

section \<open>parse.go\<close>

subsection \<open>extractVersion\<close>

definition isDigit :: "rune \<Rightarrow> bool" where
  "isDigit r \<longleftrightarrow> 48 \<le> r \<and> r \<le> 57"

text \<open>
  \<open>strconv.ParseInt(s, 10, 64)\<close> on a non-empty string of ASCII digits, the only strings
  \<open>extractVersion\<close> passes to it: the digits are accumulated from the left, and a value
  above \<open>2^63 - 1\<close> is a range error.
\<close>

definition digitsValue :: "rune list \<Rightarrow> int" where
  "digitsValue ds = foldl (\<lambda>acc r. 10 * acc + (int r - 48)) 0 ds"

definition maxInt64 :: int where
  "maxInt64 = 2 ^ 63 - 1"

definition ParseInt :: "rune list \<Rightarrow> unit + int" where
  "ParseInt s = (if digitsValue s > maxInt64 then Inl () else Inr (digitsValue s))"

text \<open>The result of a call that may panic: \<open>Panic v\<close> is \<open>panic(v)\<close>.\<close>

datatype ('p, 'a) outcome = Panic 'p | Return 'a

definition extractVersion :: "rune list \<Rightarrow> (rune list, int) outcome" where
  "extractVersion name =
     (let sb = filter isDigit name in
      if length sb = 0 then Return (- 1)
      else (case ParseInt sb of
              Inl err \<Rightarrow> Panic sb
            | Inr i \<Rightarrow> Return i))"

subsection \<open>parseStatementsFromString\<close>

text \<open>\<open>unicode.IsSpace\<close>, which \<open>strings.TrimSpace\<close> uses.\<close>

definition isSpace :: "rune \<Rightarrow> bool" where
  "isSpace r \<longleftrightarrow>
     r \<in> {0x09, 0x0A, 0x0B, 0x0C, 0x0D, 0x20, 0x85, 0xA0, 0x1680, 0x2028, 0x2029,
          0x202F, 0x205F, 0x3000}
     \<or> (0x2000 \<le> r \<and> r \<le> 0x200A)"

definition TrimSpace :: "rune list \<Rightarrow> rune list" where
  "TrimSpace s = rev (dropWhile isSpace (rev (dropWhile isSpace s)))"

datatype parse_error = NonTerminated

text \<open>
  The loop over the comment-stripped text.  Its state is the statement list \<open>stmts\<close>,
  the builder \<open>sb\<close> and \<open>lastRune\<close>; \<open>';'\<close> is 59, \<open>'\r'\<close> 13, \<open>'\n'\<close> 10, \<open>'\t'\<close> 9 and
  \<open>' '\<close> 32.  \<open>sb.Reset()\<close> leaves \<open>lastRune\<close> as it is.
\<close>

fun scanRunes :: "rune list \<Rightarrow> rune list list \<Rightarrow> rune list \<Rightarrow> rune \<Rightarrow>
    rune list list \<times> rune list" where
  "scanRunes [] stmts sb lastRune = (stmts, sb)"
| "scanRunes (r # rs) stmts sb lastRune =
     (if r = 59 then
        (let tmp = TrimSpace sb in
         scanRunes rs (if length tmp > 0 then stmts @ [tmp] else stmts) [] lastRune)
      else
        (let r' = (if r = 13 \<or> r = 10 \<or> r = 9 then 32 else r) in
         if lastRune = 32 \<and> r' = 32 then scanRunes rs stmts sb lastRune
         else scanRunes rs stmts (sb @ [r']) r'))"

text \<open>
  \<open>commentsRegex\<close> is declared in a file that is not part of the sources at hand, so
  \<open>commentsRegex.ReplaceAllString(str, " ")\<close> is the parameter \<open>stripComments\<close>.
  A fresh \<open>lastRune\<close> is 0.
\<close>

definition parseStatementsFromString ::
    "(rune list \<Rightarrow> rune list) \<Rightarrow> rune list \<Rightarrow> parse_error + rune list list" where
  "parseStatementsFromString stripComments str =
     (let rawStmts = stripComments str;
          (stmts, sb) = scanRunes rawStmts [] [] 0
      in if length (TrimSpace sb) > 0 then Inl NonTerminated else Inr stmts)"

section \<open>migration.go\<close>

subsection \<open>The checksum\<close>

text \<open>
  \<open>crypto/sha256\<close> and \<open>encoding/hex\<close> belong to Go's library; they are written out
  here after FIPS 180-4, on bytes (\<^typ>\<open>8 word\<close>) and 32-bit words.  The round constants
  and the initial hash value are given in decimal.
\<close>

type_synonym byte = "8 word"
type_synonym u32 = "32 word"

definition K256 :: "u32 list" where
  "K256 =
    [1116352408, 1899447441, 3049323471, 3921009573, 961987163, 1508970993, 2453635748, 2870763221,
     3624381080, 310598401, 607225278, 1426881987, 1925078388, 2162078206, 2614888103, 3248222580,
     3835390401, 4022224774, 264347078, 604807628, 770255983, 1249150122, 1555081692, 1996064986,
     2554220882, 2821834349, 2952996808, 3210313671, 3336571891, 3584528711, 113926993, 338241895,
     666307205, 773529912, 1294757372, 1396182291, 1695183700, 1986661051, 2177026350, 2456956037,
     2730485921, 2820302411, 3259730800, 3345764771, 3516065817, 3600352804, 4094571909, 275423344,
     430227734, 506948616, 659060556, 883997877, 958139571, 1322822218, 1537002063, 1747873779,
     1955562222, 2024104815, 2227730452, 2361852424, 2428436474, 2756734187, 3204031479, 3329325298]"

definition H256 :: "u32 list" where
  "H256 = [1779033703, 3144134277, 1013904242, 2773480762,
           1359893119, 2600822924, 528734635, 1541459225]"

definition rotr :: "nat \<Rightarrow> u32 \<Rightarrow> u32" where
  "rotr n x = word_rotr n x"

definition Ch :: "u32 \<Rightarrow> u32 \<Rightarrow> u32 \<Rightarrow> u32" where
  "Ch x y z = (x AND y) XOR (NOT x AND z)"

definition Maj :: "u32 \<Rightarrow> u32 \<Rightarrow> u32 \<Rightarrow> u32" where
  "Maj x y z = (x AND y) XOR (x AND z) XOR (y AND z)"

definition bsig0 :: "u32 \<Rightarrow> u32" where
  "bsig0 x = rotr 2 x XOR rotr 13 x XOR rotr 22 x"

definition bsig1 :: "u32 \<Rightarrow> u32" where
  "bsig1 x = rotr 6 x XOR rotr 11 x XOR rotr 25 x"

definition ssig0 :: "u32 \<Rightarrow> u32" where
  "ssig0 x = rotr 7 x XOR rotr 18 x XOR drop_bit 3 x"

definition ssig1 :: "u32 \<Rightarrow> u32" where
  "ssig1 x = rotr 17 x XOR rotr 19 x XOR drop_bit 10 x"

text \<open>Big-endian packing of bytes into words and back.\<close>

definition be32 :: "byte list \<Rightarrow> u32" where
  "be32 bs = foldl (\<lambda>acc b. push_bit 8 acc OR ucast b) 0 bs"

definition bytes_of_u32 :: "u32 \<Rightarrow> byte list" where
  "bytes_of_u32 x = [ucast (drop_bit 24 x), ucast (drop_bit 16 x), ucast (drop_bit 8 x), ucast x]"

definition bytes_of_u64 :: "64 word \<Rightarrow> byte list" where
  "bytes_of_u64 x = map (\<lambda>i. ucast (drop_bit (8 * (7 - i)) x)) [0..<8]"

definition pad :: "byte list \<Rightarrow> byte list" where
  "pad msg = msg @ [0x80] @ replicate ((119 - length msg mod 64) mod 64) 0
               @ bytes_of_u64 (word_of_nat (8 * length msg))"

fun chunks :: "nat \<Rightarrow> nat \<Rightarrow> 'a list \<Rightarrow> 'a list list" where
  "chunks 0 n xs = []"
| "chunks (Suc k) n xs = take n xs # chunks k n (drop n xs)"

fun schedule :: "nat \<Rightarrow> u32 list \<Rightarrow> u32 list" where
  "schedule 0 w = w"
| "schedule (Suc k) w =
     (let t = length w in
      schedule k (w @ [ssig1 (w ! (t - 2)) + w ! (t - 7) + ssig0 (w ! (t - 15)) + w ! (t - 16)]))"

fun round256 :: "u32 list \<Rightarrow> u32 \<times> u32 \<Rightarrow> u32 list" where
  "round256 [a, b, c, d, e, f, g, h] (k, w) =
     (let t1 = h + bsig1 e + Ch e f g + k + w;
          t2 = bsig0 a + Maj a b c
      in [t1 + t2, a, b, c, d + t1, e, f, g])"
| "round256 s (k, w) = s"

definition compress :: "u32 list \<Rightarrow> byte list \<Rightarrow> u32 list" where
  "compress hs block =
     (let w = schedule 48 (map be32 (chunks 16 4 block))
      in map2 (+) hs (foldl round256 hs (zip K256 w)))"

definition Sum256 :: "byte list \<Rightarrow> byte list" where
  "Sum256 msg =
     (let p = pad msg
      in concat (map bytes_of_u32 (foldl compress H256 (chunks (length p div 64) 64 p))))"

text \<open>\<open>hex.EncodeToString\<close>: two lower-case digits for every byte.\<close>

definition hexdigit :: "nat \<Rightarrow> char" where
  "hexdigit n = ''0123456789abcdef'' ! n"

definition EncodeToString :: "byte list \<Rightarrow> string" where
  "EncodeToString bs = concat (map (\<lambda>b. [hexdigit (unat b div 16), hexdigit (unat b mod 16)]) bs)"

text \<open>\<open>strings.Join\<close>.\<close>

fun Join :: "string list \<Rightarrow> string \<Rightarrow> string" where
  "Join [] sep = []"
| "Join [s] sep = s"
| "Join (s # t # ss) sep = s @ sep @ Join (t # ss) sep"

text \<open>\<open>[]byte(s)\<close>.\<close>

definition bytes :: "string \<Rightarrow> byte list" where
  "bytes s = map of_char s"

text \<open>
  \<open>Version\<close> is an int64.  Versions are compared and never computed with, so they are
  integers here; \<open>extractVersion\<close> above is where the bound of int64 shows.
\<close>

record Migration =
  Group :: string
  Version :: int
  Statements :: "string list"
  ScriptName :: string

definition hash :: "Migration \<Rightarrow> string" where
  "hash m = EncodeToString (Sum256 (bytes (Join (Statements m) '';'')))"


subsection \<open>Types\<close>

text \<open>
  \<open>Type\<close> and \<open>Status\<close> are string types: a history row read from the database may hold
  any text.  \<open>DBType\<close> is a string type as well, but \<open>insert\<close> and \<open>update\<close> only ever
  get what \<open>version\<close> returned without an error, one of the two constants.
\<close>

type_synonym Type = string
type_synonym Status = string

datatype DBType = PostgreSQL | MySQL

definition SQL :: Type where "SQL = ''sql''"
definition Success :: Status where "Success = ''success''"
definition Failed :: Status where "Failed = ''failed''"
definition Pending :: Status where "Pending = ''pending''"
definition Executing :: Status where "Executing = ''executing''"

text \<open>
  \<open>time.Time\<close> is a count of nanoseconds; \<open>Time.Sub\<close> saturates at the bounds of
  \<open>time.Duration\<close>, an int64.
\<close>

type_synonym Time = int
type_synonym Duration = int

definition Sub :: "Time \<Rightarrow> Time \<Rightarrow> Duration" where
  "Sub t u = max (- (2 ^ 63)) (min (2 ^ 63 - 1) (t - u))"

record HistoryEntry =
  Group :: string
  Version :: int
  Script :: string
  Type :: Type
  Checksum :: string
  AppliedAt :: Time
  ExecutionDuration :: Duration
  Status :: Status
  Log :: string

subsection \<open>The database behind the \<open>DB\<close> interface\<close>

text \<open>
  \<open>Apply\<close> talks to the database through \<open>Exec\<close> and \<open>Query\<close> only, and sends six
  kinds of calls.  A call stands for the SQL text and the arguments the source passes:
  \<open>ExecInsert t e\<close> is the \<open>INSERT\<close> of \<open>insert\<close> in the placeholder style of \<open>t\<close> with
  the nine fields of \<open>e\<close>, \<open>ExecUpdate t e\<close> the \<open>UPDATE\<close> of \<open>update\<close>,
  \<open>ExecStatement s\<close> a statement of a migration.
\<close>

datatype call =
    QueryVersion
  | QueryHistory
  | ExecCreateTable
  | ExecInsert DBType HistoryEntry
  | ExecUpdate DBType HistoryEntry
  | ExecStatement string

text \<open>
  The state of the database: the rows \<open>SELECT version()\<close> yields (each scans into a
  string, or fails to scan), the rows of \<open>migration_schema_history\<close> (an absent table
  has none) and the calls received so far, oldest first.
\<close>

record DB =
  versionRows :: "(string + rune list) list"
  table :: "HistoryEntry list"
  trace :: "call list"

text \<open>
  What \<open>Apply\<close> cannot control is a parameter of the model:
  \<^item> \<open>fault tr c\<close>: the error with which the database answers call \<open>c\<close> after the calls
    \<open>tr\<close>, if it does (a statement of a migration that fails, a lost connection, ...);
  \<^item> \<open>effect tr s rows\<close>: the rows of \<open>migration_schema_history\<close> after the database
    has run the statement \<open>s\<close> of a migration, received after the calls \<open>tr\<close>, on the
    rows \<open>rows\<close> (a migration is free to write to that table, or to drop it);
  \<^item> \<open>now tr k\<close>: what the \<open>k\<close>-th \<open>time.Now()\<close> since the last database call returns;
  \<^item> \<open>unicodeToLower\<close>: \<open>unicode.ToLower\<close> on the runes beyond ASCII;
  \<^item> \<open>rangeCheck\<close>, \<open>rangeApply\<close>: the order in which the two \<open>range groups\<close> loops
    visit the keys of the map, which Go leaves unspecified;
  \<^item> \<open>sortSlice\<close>: the slice \<open>sort.Slice\<close> leaves, by the \<open>less\<close> of the source.
    \<open>sort.Slice\<close> is not stable, so Go does not fix the order of equal versions.
\<close>

record Env =
  fault :: "call list \<Rightarrow> call \<Rightarrow> string option"
  effect :: "call list \<Rightarrow> string \<Rightarrow> HistoryEntry list \<Rightarrow> HistoryEntry list"
  now :: "call list \<Rightarrow> nat \<Rightarrow> Time"
  unicodeToLower :: "rune \<Rightarrow> rune"
  rangeCheck :: "string list \<Rightarrow> string list"
  rangeApply :: "string list \<Rightarrow> string list"
  sortSlice :: "Migration list \<Rightarrow> Migration list"

text \<open>An order of iteration visits every key once.\<close>

definition validRange :: "(string list \<Rightarrow> string list) \<Rightarrow> bool" where
  "validRange f \<longleftrightarrow> (\<forall>ks. mset (f ks) = mset ks)"

text \<open>
  \<open>sort.Slice\<close> permutes the slice, and leaves it in ascending order of the versions.
\<close>

definition validSort :: "(Migration list \<Rightarrow> Migration list) \<Rightarrow> bool" where
  "validSort f \<longleftrightarrow> (\<forall>xs. mset (f xs) = mset xs \<and> sorted (map Migration.Version (f xs)))"

definition entryKey :: "HistoryEntry \<Rightarrow> string \<times> int" where
  "entryKey e = (HistoryEntry.Group e, HistoryEntry.Version e)"

definition migrationKey :: "Migration \<Rightarrow> string \<times> int" where
  "migrationKey m = (Migration.Group m, Migration.Version m)"

text \<open>
  \<open>Exec\<close>: a call the database refuses changes nothing.  Otherwise an insert adds a row
  unless the primary key \<open>(group, version)\<close> is taken, an update overwrites the seven
  other columns of the rows with that key, \<open>CREATE TABLE IF NOT EXISTS\<close> keeps the rows
  there are, and a statement of a migration does to the rows what \<open>effect\<close> says.
\<close>

definition duplicateKey :: string where
  "duplicateKey = ''duplicate key''"

definition Exec :: "Env \<Rightarrow> DB \<Rightarrow> call \<Rightarrow> string option \<times> DB" where
  "Exec env db c =
     (let db' = db\<lparr>trace := trace db @ [c]\<rparr> in
      case fault env (trace db) c of
        Some err \<Rightarrow> (Some err, db')
      | None \<Rightarrow>
         (case c of
            ExecInsert t e \<Rightarrow>
              (if entryKey e \<in> set (map entryKey (table db)) then (Some duplicateKey, db')
               else (None, db'\<lparr>table := table db @ [e]\<rparr>))
          | ExecUpdate t e \<Rightarrow>
              (None, db'\<lparr>table := map (\<lambda>r. if entryKey r = entryKey e then e else r) (table db)\<rparr>)
          | ExecStatement s \<Rightarrow> (None, db'\<lparr>table := effect env (trace db) s (table db)\<rparr>)
          | _ \<Rightarrow> (None, db')))"

text \<open>
  \<open>Query\<close>, for the two queries of the source.  The rows of the history query come with
  \<open>rows.Err()\<close>; every stored row scans.
\<close>

definition QueryVersionRows :: "Env \<Rightarrow> DB \<Rightarrow> (string + (string + rune list) list) \<times> DB" where
  "QueryVersionRows env db =
     (let db' = db\<lparr>trace := trace db @ [QueryVersion]\<rparr> in
      case fault env (trace db) QueryVersion of
        Some err \<Rightarrow> (Inl err, db')
      | None \<Rightarrow> (Inr (versionRows db), db'))"

definition QueryHistoryRows ::
    "Env \<Rightarrow> DB \<Rightarrow> (string + (string + HistoryEntry) list \<times> string option) \<times> DB" where
  "QueryHistoryRows env db =
     (let db' = db\<lparr>trace := trace db @ [QueryHistory]\<rparr> in
      case fault env (trace db) QueryHistory of
        Some err \<Rightarrow> (Inl err, db')
      | None \<Rightarrow> (Inr (map Inr (table db), None), db'))"

subsection \<open>Errors\<close>

text \<open>
  An error of \<open>execute\<close>, and its \<open>Error()\<close> text
  (\<open>"failed to execute statement '%s': %w"\<close>).
\<close>

datatype exec_error = FailedToExecuteStatement string string

fun Error :: "exec_error \<Rightarrow> string" where
  "Error (FailedToExecuteStatement stmt err) =
     ''failed to execute statement '' @ [CHR 0x27] @ stmt @ [CHR 0x27] @ '': '' @ err"

datatype version_error =
    VersionQueryFailed string
  | VersionScanFailed string
  | UnknownType "rune list"

datatype history_error =
    CannotSelectHistory string
  | CannotScanEntry string
  | CannotScanHistory

datatype error =
    UnknownDatabaseType version_error
  | CannotCreateTable string
  | CannotGetHistory history_error
  | Dirty HistoryEntry
  | Modified HistoryEntry Migration
  | NotUnique Migration
  | FailedToInsert string
  | FailedToExecuteMigration string int exec_error
  | FailedToUpdate string


subsection \<open>version\<close>

text \<open>
  \<open>strings.ToLower\<close> maps every rune: an ASCII capital to its small letter, another
  ASCII rune to itself, a rune beyond ASCII by \<open>unicode.ToLower\<close>.
\<close>

definition toLowerRune :: "Env \<Rightarrow> rune \<Rightarrow> rune" where
  "toLowerRune env r =
     (if r < 128 then (if 65 \<le> r \<and> r \<le> 90 then r + 32 else r) else unicodeToLower env r)"

definition ToLower :: "Env \<Rightarrow> rune list \<Rightarrow> rune list" where
  "ToLower env s = map (toLowerRune env) s"

fun HasPrefix :: "rune list \<Rightarrow> rune list \<Rightarrow> bool" where
  "HasPrefix s [] = True"
| "HasPrefix [] (p # ps) = False"
| "HasPrefix (c # s) (p # ps) = (c = p \<and> HasPrefix s ps)"

fun Contains :: "rune list \<Rightarrow> rune list \<Rightarrow> bool" where
  "Contains [] substr = (substr = [])"
| "Contains (c # s) substr = (HasPrefix (c # s) substr \<or> Contains s substr)"

text \<open>The loop \<open>for rows.Next() { rows.Scan(&str) }\<close>: the last row stays in \<open>str\<close>.\<close>

fun scanVersionRows :: "rune list \<Rightarrow> (string + rune list) list \<Rightarrow> string + rune list" where
  "scanVersionRows str [] = Inr str"
| "scanVersionRows str (Inl err # rows) = Inl err"
| "scanVersionRows str (Inr v # rows) = scanVersionRows v rows"

text \<open>The second half of \<open>version\<close>, from \<open>strings.ToLower\<close> on.\<close>

definition versionOfBanner :: "Env \<Rightarrow> rune list \<Rightarrow> version_error + DBType" where
  "versionOfBanner env banner =
     (let str = ToLower env banner in
      if Contains str (runes ''postgresql'') then Inr PostgreSQL
      else if Contains str (runes ''mariadb'') then Inr MySQL
      else if Contains str (runes ''mysql'') then Inr MySQL
      else Inl (UnknownType str))"

definition version :: "Env \<Rightarrow> DB \<Rightarrow> (version_error + DBType) \<times> DB" where
  "version env tx =
     (case QueryVersionRows env tx of
        (Inl err, tx') \<Rightarrow> (Inl (VersionQueryFailed err), tx')
      | (Inr rows, tx') \<Rightarrow>
          (case scanVersionRows [] rows of
             Inl err \<Rightarrow> (Inl (VersionScanFailed err), tx')
           | Inr str \<Rightarrow> (versionOfBanner env str, tx')))"

subsection \<open>insert, update, execute, CreateTable, History\<close>

text \<open>
  \<open>insert\<close> and \<open>update\<close> are \<open>insert_entry\<close> and \<open>update_entry\<close> here, the plain names
  being taken.  Both pick the SQL text by \<open>dbtype\<close> and pass the fields of the entry.
\<close>

definition insert_entry :: "Env \<Rightarrow> DBType \<Rightarrow> DB \<Rightarrow> HistoryEntry \<Rightarrow> string option \<times> DB" where
  "insert_entry env dbtype tx entry = Exec env tx (ExecInsert dbtype entry)"

definition update_entry :: "Env \<Rightarrow> DBType \<Rightarrow> DB \<Rightarrow> HistoryEntry \<Rightarrow> string option \<times> DB" where
  "update_entry env dbtype tx entry = Exec env tx (ExecUpdate dbtype entry)"

fun execute :: "Env \<Rightarrow> DB \<Rightarrow> string list \<Rightarrow> exec_error option \<times> DB" where
  "execute env tx [] = (None, tx)"
| "execute env tx (stmt # stmts) =
     (case Exec env tx (ExecStatement stmt) of
        (Some err, tx') \<Rightarrow> (Some (FailedToExecuteStatement stmt err), tx')
      | (None, tx') \<Rightarrow> execute env tx' stmts)"

definition CreateTable :: "Env \<Rightarrow> DB \<Rightarrow> string option \<times> DB" where
  "CreateTable env tx = Exec env tx ExecCreateTable"

fun scanHistoryRows :: "HistoryEntry list \<Rightarrow> (string + HistoryEntry) list \<Rightarrow>
    string + HistoryEntry list" where
  "scanHistoryRows res [] = Inr res"
| "scanHistoryRows res (Inl err # rows) = Inl err"
| "scanHistoryRows res (Inr entry # rows) = scanHistoryRows (res @ [entry]) rows"

definition History :: "Env \<Rightarrow> DB \<Rightarrow> (history_error + HistoryEntry list) \<times> DB" where
  "History env tx =
     (case QueryHistoryRows env tx of
        (Inl err, tx') \<Rightarrow> (Inl (CannotSelectHistory err), tx')
      | (Inr (rows, rowsErr), tx') \<Rightarrow>
          (case scanHistoryRows [] rows of
             Inl err \<Rightarrow> (Inl (CannotScanEntry err), tx')
           | Inr res \<Rightarrow>
               (case rowsErr of
                  Some err \<Rightarrow> (Inl CannotScanHistory, tx')
                | None \<Rightarrow> (Inr res, tx'))))"

subsection \<open>Apply\<close>

text \<open>The scan for a row that is not \<open>success\<close>.\<close>

fun dirtyCheck :: "HistoryEntry list \<Rightarrow> error option" where
  "dirtyCheck [] = None"
| "dirtyCheck (entry # entries) =
     (if Status entry \<noteq> Success then Some (Dirty entry) else dirtyCheck entries)"

text \<open>
  The inner loop over the history for one migration: \<open>Inr alreadyApplied\<close>, or the error
  that a row of its group and version holds another checksum.
\<close>

fun alreadyApplied :: "Migration \<Rightarrow> HistoryEntry list \<Rightarrow> error + bool" where
  "alreadyApplied migration [] = Inr False"
| "alreadyApplied migration (entry # entries) =
     (if Migration.Group migration = HistoryEntry.Group entry
         \<and> Migration.Version migration = HistoryEntry.Version entry
      then (if hash migration \<noteq> Checksum entry then Inl (Modified entry migration)
            else Inr True)
      else alreadyApplied migration entries)"

text \<open>
  \<open>groups\<close>, a \<open>map[string][]Migration\<close>, is an association list: \<open>groups[g]\<close> of an
  absent key is the empty slice, and \<open>groups[g] = v\<close> overwrites or adds the key.
\<close>

type_synonym groups = "(string \<times> Migration list) list"

definition groupAt :: "groups \<Rightarrow> string \<Rightarrow> Migration list" where
  "groupAt groups g = (case map_of groups g of None \<Rightarrow> [] | Some candidates \<Rightarrow> candidates)"

fun groupBy :: "HistoryEntry list \<Rightarrow> Migration list \<Rightarrow> groups \<Rightarrow> error + groups" where
  "groupBy entries [] groups = Inr groups"
| "groupBy entries (migration # migrations) groups =
     (case alreadyApplied migration entries of
        Inl err \<Rightarrow> Inl err
      | Inr True \<Rightarrow> groupBy entries migrations groups
      | Inr False \<Rightarrow>
          groupBy entries migrations
            (AList.update (Migration.Group migration)
               (groupAt groups (Migration.Group migration) @ [migration]) groups))"

text \<open>
  The uniqueness check.  \<open>strictMonotonicVersion\<close> is set to \<open>-1\<close> and never assigned
  again.  \<open>sort.Slice\<close> sorts the slice in place, and the slice shares its array with
  the one stored in the map, so the second loop over \<open>groups\<close> meets the sorted
  candidates.
\<close>

fun checkCandidates :: "int \<Rightarrow> Migration list \<Rightarrow> error option" where
  "checkCandidates strictMonotonicVersion [] = None"
| "checkCandidates strictMonotonicVersion (m # candidates) =
     (if Migration.Version m \<le> strictMonotonicVersion then Some (NotUnique m)
      else checkCandidates strictMonotonicVersion candidates)"

fun uniquenessCheck :: "Env \<Rightarrow> string list \<Rightarrow> groups \<Rightarrow> error + groups" where
  "uniquenessCheck env [] groups = Inr groups"
| "uniquenessCheck env (g # gs) groups =
     (let candidates = sortSlice env (groupAt groups g) in
      case checkCandidates (- 1) candidates of
        Some err \<Rightarrow> Inl err
      | None \<Rightarrow> uniquenessCheck env gs (AList.update g candidates groups))"

text \<open>The body of the inner loop that applies one migration.\<close>

definition applyMigration :: "Env \<Rightarrow> DBType \<Rightarrow> DB \<Rightarrow> Migration \<Rightarrow> error option \<times> DB" where
  "applyMigration env dbType db migration =
     (let entry = \<lparr>HistoryEntry.Group = Migration.Group migration,
                   HistoryEntry.Version = Migration.Version migration,
                   Script = ScriptName migration,
                   Type = SQL,
                   Checksum = hash migration,
                   AppliedAt = now env (trace db) 0,
                   ExecutionDuration = 0,
                   Status = Executing,
                   Log = []\<rparr>;
          start = now env (trace db) 1
      in case insert_entry env dbType db entry of
           (Some err, db1) \<Rightarrow> (Some (FailedToInsert err), db1)
         | (None, db1) \<Rightarrow>
             (case execute env db1 (Statements migration) of
                (Some err, db2) \<Rightarrow>
                  (let entry' = entry\<lparr>Log := Error err, Status := Failed\<rparr>;
                       (_, db3) = update_entry env dbType db2 entry'
                   in (Some (FailedToExecuteMigration (Migration.Group migration)
                               (Migration.Version migration) err), db3))
              | (None, db2) \<Rightarrow>
                  (let entry' = entry\<lparr>Status := Success,
                                     ExecutionDuration := Sub (now env (trace db2) 0) start\<rparr>
                   in case update_entry env dbType db2 entry' of
                        (Some err, db3) \<Rightarrow> (Some (FailedToUpdate err), db3)
                      | (None, db3) \<Rightarrow> (None, db3))))"

fun applyCandidates :: "Env \<Rightarrow> DBType \<Rightarrow> DB \<Rightarrow> Migration list \<Rightarrow> error option \<times> DB" where
  "applyCandidates env dbType db [] = (None, db)"
| "applyCandidates env dbType db (migration # candidates) =
     (case applyMigration env dbType db migration of
        (Some err, db') \<Rightarrow> (Some err, db')
      | (None, db') \<Rightarrow> applyCandidates env dbType db' candidates)"

fun applyGroups :: "Env \<Rightarrow> DBType \<Rightarrow> DB \<Rightarrow> Migration list list \<Rightarrow> error option \<times> DB" where
  "applyGroups env dbType db [] = (None, db)"
| "applyGroups env dbType db (candidates # rest) =
     (case applyCandidates env dbType db candidates of
        (Some err, db') \<Rightarrow> (Some err, db')
      | (None, db') \<Rightarrow> applyGroups env dbType db' rest)"

text \<open>
  \<open>Apply\<close>.  The mutex serialises the calls within a process; one call is modelled,
  from the state of the database it starts in to the error it returns (\<open>None\<close> is
  \<open>nil\<close>) and the state it leaves.
\<close>

definition Apply :: "Env \<Rightarrow> DB \<Rightarrow> Migration list \<Rightarrow> error option \<times> DB" where
  "Apply env db migrations =
     (case version env db of
        (Inl err, db1) \<Rightarrow> (Some (UnknownDatabaseType err), db1)
      | (Inr dbType, db1) \<Rightarrow>
     (case CreateTable env db1 of
        (Some err, db2) \<Rightarrow> (Some (CannotCreateTable err), db2)
      | (None, db2) \<Rightarrow>
     (case History env db2 of
        (Inl err, db3) \<Rightarrow> (Some (CannotGetHistory err), db3)
      | (Inr entries, db3) \<Rightarrow>
     (case dirtyCheck entries of
        Some err \<Rightarrow> (Some err, db3)
      | None \<Rightarrow>
     (case groupBy entries migrations [] of
        Inl err \<Rightarrow> (Some err, db3)
      | Inr groups \<Rightarrow>
     (case uniquenessCheck env (rangeCheck env (map fst groups)) groups of
        Inl err \<Rightarrow> (Some err, db3)
      | Inr groups' \<Rightarrow>
          applyGroups env dbType db3
            (map (groupAt groups') (rangeApply env (map fst groups')))))))))"


section \<open>Notions of the claims\<close>

text \<open>The number a string of decimal digits denotes, by position.\<close>

definition decimalValue :: "rune list \<Rightarrow> int" where
  "decimalValue ds = (\<Sum>i<length ds. (int (ds ! i) - 48) * 10 ^ (length ds - 1 - i))"

text \<open>The text after the last \<open>';'\<close>: all of it when there is none.\<close>

definition afterLastSemicolon :: "rune list \<Rightarrow> rune list" where
  "afterLastSemicolon s = rev (takeWhile (\<lambda>r. r \<noteq> 59) (rev s))"

text \<open>
  \<open>s\<close> contains \<open>sub\<close> case-insensitively: a stretch of \<open>s\<close> is \<open>sub\<close> once its
  capitals are made small.
\<close>

definition containsFold :: "Env \<Rightarrow> rune list \<Rightarrow> rune list \<Rightarrow> bool" where
  "containsFold env s sub \<longleftrightarrow> (\<exists>pre mid post. s = pre @ mid @ post \<and> ToLower env mid = sub)"

text \<open>
  A supplied migration is pending when no row of the history has its group and version.
\<close>

definition pending :: "HistoryEntry list \<Rightarrow> Migration \<Rightarrow> bool" where
  "pending entries m \<longleftrightarrow> migrationKey m \<notin> entryKey ` set entries"

text \<open>
  Among the calls \<open>calls\<close>, made after the calls \<open>before\<close>, is a statement of a
  migration that the database refused.
\<close>

definition refusedStatement :: "Env \<Rightarrow> call list \<Rightarrow> call list \<Rightarrow> bool" where
  "refusedStatement env before calls \<longleftrightarrow>
     (\<exists>pre s post. calls = pre @ ExecStatement s # post \<and>
        fault env (before @ pre) (ExecStatement s) \<noteq> None)"

text \<open>
  The calls made between two states of the database, and the keys of the rows a list of
  calls inserts.
\<close>

definition newCalls :: "DB \<Rightarrow> DB \<Rightarrow> call list" where
  "newCalls db db' = drop (length (trace db)) (trace db')"

definition insertedKeys :: "call list \<Rightarrow> (string \<times> int) list" where
  "insertedKeys calls = concat (map (\<lambda>c. case c of ExecInsert t e \<Rightarrow> [entryKey e] | _ \<Rightarrow> []) calls)"

text \<open>
  What a list of calls executes.  \<open>Apply\<close> starts a migration by inserting its history
  row and sends its statements after that, so the calls fall into one block for every
  insert: the key of the inserted row together with the statements sent before the next
  insert, in the order in which they were sent.  \<open>executedOf g\<close> keeps the blocks of the
  group \<open>g\<close>.  The block of a migration that ran to its end is \<open>block m\<close>: its key and
  all of its statements.
\<close>

fun statementsOf :: "call list \<Rightarrow> string list" where
  "statementsOf [] = []"
| "statementsOf (ExecStatement s # calls) = s # statementsOf calls"
| "statementsOf (ExecInsert t e # calls) = []"
| "statementsOf (c # calls) = statementsOf calls"

fun executed :: "call list \<Rightarrow> ((string \<times> int) \<times> string list) list" where
  "executed [] = []"
| "executed (ExecInsert t e # calls) = (entryKey e, statementsOf calls) # executed calls"
| "executed (c # calls) = executed calls"


definition block :: "Migration \<Rightarrow> (string \<times> int) \<times> string list" where
  "block m = (migrationKey m, Statements m)"

text \<open>
  The pending migrations of a group, in the order in which they are supplied.
\<close>

definition pendingOf :: "string \<Rightarrow> HistoryEntry list \<Rightarrow> Migration list \<Rightarrow> Migration list" where
  "pendingOf g entries ms = filter (\<lambda>m. Migration.Group m = g \<and> pending entries m) ms"

text \<open>
  The statements \<open>stmts\<close> are harmless to the history table: whenever the database runs
  one of them, the rows of \<open>migration_schema_history\<close> are afterwards what they were
  before.  The migrations \<open>ms\<close> leave the history alone when all their statements are
  harmless.
\<close>

definition harmless :: "Env \<Rightarrow> string list \<Rightarrow> bool" where
  "harmless env stmts \<longleftrightarrow> (\<forall>s\<in>set stmts. \<forall>tr rows. effect env tr s rows = rows)"

definition leavesHistory :: "Env \<Rightarrow> Migration list \<Rightarrow> bool" where
  "leavesHistory env ms \<longleftrightarrow> (\<forall>m\<in>set ms. harmless env (Statements m))"

subsection \<open>Names for the proofs\<close>

text \<open>
  The row \<open>Apply\<close> inserts for a migration, that row once the migration has succeeded
  or failed, and the database after the three calls that load the history.
\<close>

definition newEntry :: "Env \<Rightarrow> DB \<Rightarrow> Migration \<Rightarrow> HistoryEntry" where
  "newEntry env db m =
     \<lparr>HistoryEntry.Group = Migration.Group m, HistoryEntry.Version = Migration.Version m,
      Script = ScriptName m, Type = SQL, Checksum = hash m, AppliedAt = now env (trace db) 0,
      ExecutionDuration = 0, Status = Executing, Log = []\<rparr>"

definition succeeded :: "HistoryEntry \<Rightarrow> Duration \<Rightarrow> HistoryEntry" where
  "succeeded e d = e\<lparr>Status := Success, ExecutionDuration := d\<rparr>"

definition failed :: "HistoryEntry \<Rightarrow> exec_error \<Rightarrow> HistoryEntry" where
  "failed e err = e\<lparr>Log := Error err, Status := Failed\<rparr>"

definition loaded :: "DB \<Rightarrow> DB" where
  "loaded db = db\<lparr>trace := trace db @ [QueryVersion, ExecCreateTable, QueryHistory]\<rparr>"

subsection \<open>Inputs of the examples\<close>

text \<open>
  A database that refuses no call and whose history table no statement of a migration
  touches, under a clock that counts the calls, with both loops over \<open>groups\<close> in the
  order of insertion and the insertion sort that \<open>sort.Slice\<close> is on a slice of at most
  12 elements; a database that refuses one statement, with the given error, and no other
  call; a database that refuses one statement and, as PostgreSQL does inside a
  transaction, every call after it; and a database in which one statement empties the
  history table.
\<close>

definition quietEnv :: Env where
  "quietEnv = \<lparr>fault = (\<lambda>tr c. None), effect = (\<lambda>tr s rows. rows),
               now = (\<lambda>tr k. int (length tr)), unicodeToLower = (\<lambda>r. r),
               rangeCheck = (\<lambda>ks. ks), rangeApply = (\<lambda>ks. ks),
               sortSlice = sort_key Migration.Version\<rparr>"




definition deletingEnv :: "string \<Rightarrow> Env" where
  "deletingEnv stmt = quietEnv\<lparr>effect := (\<lambda>tr s rows. if s = stmt then [] else rows)\<rparr>"

text \<open>
  A database with an empty history that reports the given banner, a PostgreSQL
  database with the given history, a migration and a row of the history.
\<close>

definition freshDB :: "string \<Rightarrow> DB" where
  "freshDB banner = \<lparr>versionRows = [Inr (runes banner)], table = [], trace = []\<rparr>"

definition historyDB :: "HistoryEntry list \<Rightarrow> DB" where
  "historyDB rows = \<lparr>versionRows = [Inr (runes ''PostgreSQL 12.2'')], table = rows, trace = []\<rparr>"

definition migration :: "string \<Rightarrow> int \<Rightarrow> string list \<Rightarrow> Migration" where
  "migration g v stmts =
     \<lparr>Migration.Group = g, Migration.Version = v, Statements = stmts, ScriptName = ''script.sql''\<rparr>"

definition row :: "string \<Rightarrow> int \<Rightarrow> string \<Rightarrow> Status \<Rightarrow> HistoryEntry" where
  "row g v checksum status =
     \<lparr>HistoryEntry.Group = g, HistoryEntry.Version = v, Script = ''script.sql'', Type = SQL,
      Checksum = checksum, AppliedAt = 0, ExecutionDuration = 0, Status = status, Log = []\<rparr>"


section \<open>Properties of the decoding\<close>

text \<open>An ASCII character is one rune, its code.\<close>

lemma runes_Nil: "runes [] = []"
  by (simp add: runes_def)

lemma runes_Cons: "of_char c < (128::nat) \<Longrightarrow> runes (c # s) = of_char c # runes s"
  by (simp add: runes_def DecodeRune_def)

lemmas runes_simps = runes_Nil runes_Cons

text \<open>
  Beyond ASCII: \<open>U+00E9\<close>, \<open>U+20AC\<close> and \<open>U+1F600\<close> take two, three and four bytes;
  and bytes that are not UTF-8 (a byte that starts nothing, a sequence cut short by an
  ASCII character, an overlong form, a surrogate, a sequence cut short by the end).
\<close>

lemma decodeRunes_wellformed:
  "decodeRunes [0x61, 0xC3, 0xA9, 0xE2, 0x82, 0xAC, 0xF0, 0x9F, 0x98, 0x80, 0x62]
     = [0x61, 0xE9, 0x20AC, 0x1F600, 0x62]"
  by (simp add: DecodeRune_def second_def continuation_def)

lemma decodeRunes_illformed:
  "decodeRunes [0xFF, 0x61, 0xC3, 0x28, 0xC0, 0x80, 0xED, 0xA0, 0x80, 0xE2, 0x82]
     = [RuneError, 0x61, RuneError, 0x28, RuneError, RuneError, RuneError, RuneError,
        RuneError, RuneError, RuneError]"
  by (simp add: DecodeRune_def second_def continuation_def RuneError_def)

section \<open>Properties of parse.go\<close>

subsection \<open>extractVersion\<close>

lemma decimalValue_snoc: "decimalValue (ds @ [d]) = 10 * decimalValue ds + (int d - 48)"
proof -
  have "(\<Sum>i<length ds. (int ((ds @ [d]) ! i) - 48) * 10 ^ (length ds - i))
      = (\<Sum>i<length ds. 10 * ((int (ds ! i) - 48) * 10 ^ (length ds - 1 - i)))"
  proof (rule sum.cong)
    fix i assume "i \<in> {..<length ds}"
    then have i: "i < length ds" by simp
    then have "length ds - i = Suc (length ds - 1 - i)" by arith
    with i show "(int ((ds @ [d]) ! i) - 48) * 10 ^ (length ds - i)
        = 10 * ((int (ds ! i) - 48) * 10 ^ (length ds - 1 - i))"
      by (simp add: nth_append)
  qed simp
  then show ?thesis
    by (simp add: decimalValue_def sum_distrib_left)
qed

lemma digitsValue_decimal: "digitsValue ds = decimalValue ds"
  unfolding digitsValue_def
proof (induction ds rule: rev_induct)
  case Nil
  then show ?case by (simp add: decimalValue_def)
next
  case (snoc d ds)
  then show ?case by (simp add: decimalValue_snoc)
qed

lemma extractVersion_overflow_example:
  "extractVersion (runes ''v99999999999999999999.sql'') = Panic (runes ''99999999999999999999'')"
  by (simp add: extractVersion_def runes_simps isDigit_def ParseInt_def digitsValue_def maxInt64_def)

text \<open>
  C10.  \<open>extractVersion\<close> returns \<open>-1\<close> for a name without a digit.  Otherwise it keeps
  the digits of the name, in their order: when the number they denote fits an int64 it
  returns that number, and when the number is above \<open>2^63 - 1\<close> it panics with the
  digits instead of returning an error.  A name of twenty nines is such a name.
\<close>

theorem extractVersion_spec:
  "(filter isDigit name = [] \<longrightarrow> extractVersion name = Return (- 1)) \<and>
   (filter isDigit name \<noteq> [] \<and> decimalValue (filter isDigit name) \<le> 2 ^ 63 - 1 \<longrightarrow>
      extractVersion name = Return (decimalValue (filter isDigit name))) \<and>
   (filter isDigit name \<noteq> [] \<and> decimalValue (filter isDigit name) > 2 ^ 63 - 1 \<longrightarrow>
      extractVersion name = Panic (filter isDigit name)) \<and>
   extractVersion (runes ''v99999999999999999999.sql'') = Panic (runes ''99999999999999999999'')"
  using extractVersion_overflow_example
  by (simp add: extractVersion_def ParseInt_def digitsValue_decimal maxInt64_def Let_def)

lemma decimalValue_0001: "decimalValue (runes ''0001'') = 1"
  by (simp add: decimalValue_def runes_simps lessThan_Suc numeral_eq_Suc)

lemma decimalValue_2_63:
  "decimalValue (runes ''9223372036854775808'') = 9223372036854775808"
  unfolding digitsValue_decimal [symmetric] by (simp add: digitsValue_def runes_simps)

theorem extractVersion_spec_witness:
  "extractVersion (runes ''user.sql'') = Return (- 1) \<and>
   extractVersion (runes ''0001_user.sql'') = Return 1 \<and>
   extractVersion (runes ''9223372036854775808.sql'') = Panic (runes ''9223372036854775808'')"
proof -
  have a: "filter isDigit (runes ''user.sql'') = []"
    by (simp add: runes_simps isDigit_def)
  have b: "filter isDigit (runes ''0001_user.sql'') = runes ''0001''"
    by (simp add: runes_simps isDigit_def)
  have c: "filter isDigit (runes ''9223372036854775808.sql'') = runes ''9223372036854775808''"
    by (simp add: runes_simps isDigit_def)
  have d: "runes ''0001'' \<noteq> []" "runes ''9223372036854775808'' \<noteq> []"
    by (simp_all add: runes_simps)
  show ?thesis
    using extractVersion_spec [of "runes ''user.sql''"]
      extractVersion_spec [of "runes ''0001_user.sql''"]
      extractVersion_spec [of "runes ''9223372036854775808.sql''"]
    by (simp add: a b c d decimalValue_0001 decimalValue_2_63)
qed

subsection \<open>parseStatementsFromString\<close>

lemma afterLastSemicolon_split:
  "\<exists>pre. s = pre @ afterLastSemicolon s"
proof -
  have "rev s = takeWhile (\<lambda>r. r \<noteq> 59) (rev s) @ dropWhile (\<lambda>r. r \<noteq> 59) (rev s)"
    by simp
  then have "s = rev (dropWhile (\<lambda>r. r \<noteq> 59) (rev s)) @ afterLastSemicolon s"
    unfolding afterLastSemicolon_def by (metis rev_append rev_rev_ident)
  then show ?thesis ..
qed

lemma afterLastSemicolon_free: "59 \<notin> set (afterLastSemicolon s)"
  unfolding afterLastSemicolon_def by (auto dest: set_takeWhileD)

lemma dropWhile_keeps: "x \<in> set xs \<Longrightarrow> \<not> P x \<Longrightarrow> x \<in> set (dropWhile P xs)"
  by (induction xs) auto

lemma TrimSpace_nonempty:
  assumes "r \<in> set s" "\<not> isSpace r"
  shows "TrimSpace s \<noteq> []"
proof -
  from assms have "r \<in> set (dropWhile isSpace s)" by (rule dropWhile_keeps)
  then have "r \<in> set (rev (dropWhile isSpace s))" by simp
  then have "r \<in> set (dropWhile isSpace (rev (dropWhile isSpace s)))"
    using assms(2) by (rule dropWhile_keeps)
  then have "dropWhile isSpace (rev (dropWhile isSpace s)) \<noteq> []"
    by (cases "dropWhile isSpace (rev (dropWhile isSpace s))") simp_all
  then show ?thesis unfolding TrimSpace_def by simp
qed

lemma scanRunes_keeps:
  assumes "59 \<notin> set rs" "r \<in> set sb \<union> set rs" "\<not> isSpace r"
  shows "r \<in> set (snd (scanRunes rs stmts sb lastRune))"
  using assms
proof (induction rs arbitrary: sb lastRune)
  case Nil
  then show ?case by simp
next
  case (Cons x xs)
  define r' where "r' = (if x = 13 \<or> x = 10 \<or> x = 9 then 32 else x)"
  from Cons.prems(3) have nsp: "r \<noteq> 13" "r \<noteq> 10" "r \<noteq> 9" "r \<noteq> 32"
    by (auto simp: isSpace_def)
  from Cons.prems(1) have x: "x \<noteq> 59" and xs: "59 \<notin> set xs" by auto
  have step: "scanRunes (x # xs) stmts sb lastRune =
      (if lastRune = 32 \<and> r' = 32 then scanRunes xs stmts sb lastRune
       else scanRunes xs stmts (sb @ [r']) r')"
    using x by (simp add: r'_def Let_def)
  show ?case
  proof (cases "lastRune = 32 \<and> r' = 32")
    case True
    then have "r \<noteq> x" using nsp by (auto simp: r'_def split: if_splits)
    with Cons.prems(2) have "r \<in> set sb \<union> set xs" by auto
    from Cons.IH [OF xs this Cons.prems(3)] True show ?thesis unfolding step by simp
  next
    case False
    have "r \<in> set (sb @ [r']) \<union> set xs"
      using Cons.prems(2) nsp by (auto simp: r'_def)
    from Cons.IH [OF xs this Cons.prems(3)] False show ?thesis unfolding step by auto
  qed
qed

lemma scanRunes_append:
  "\<exists>stmts' sb' lastRune'.
     scanRunes (pre @ rest) stmts sb lastRune = scanRunes rest stmts' sb' lastRune'"
proof (induction pre arbitrary: stmts sb lastRune)
  case Nil
  show ?case by (simp, blast)
next
  case (Cons x xs)
  then show ?case by (simp add: Let_def)
qed

text \<open>
  C8.  When the comment-stripped text holds a rune that is not white space after its
  last \<open>';'\<close> (or anywhere, when it has no \<open>';'\<close>), \<open>parseStatementsFromString\<close> returns
  the parse error and no statement list.  White space is what \<open>strings.TrimSpace\<close>
  trims.
\<close>

theorem parse_unterminated:
  assumes "\<exists>r\<in>set (afterLastSemicolon (stripComments str)). \<not> isSpace r"
  shows "parseStatementsFromString stripComments str = Inl NonTerminated"
proof -
  from assms obtain r where r: "r \<in> set (afterLastSemicolon (stripComments str))" "\<not> isSpace r"
    by blast
  obtain pre where pre: "stripComments str = pre @ afterLastSemicolon (stripComments str)"
    using afterLastSemicolon_split by blast
  obtain stmts' sb' lastRune' where
    "scanRunes (pre @ afterLastSemicolon (stripComments str)) [] [] 0
       = scanRunes (afterLastSemicolon (stripComments str)) stmts' sb' lastRune'"
    using scanRunes_append by blast
  with pre have eq: "scanRunes (stripComments str) [] [] 0
       = scanRunes (afterLastSemicolon (stripComments str)) stmts' sb' lastRune'"
    by simp
  have "r \<in> set (snd (scanRunes (afterLastSemicolon (stripComments str)) stmts' sb' lastRune'))"
    using afterLastSemicolon_free r by (intro scanRunes_keeps) auto
  then have "r \<in> set (snd (scanRunes (stripComments str) [] [] 0))"
    using eq by simp
  then have "TrimSpace (snd (scanRunes (stripComments str) [] [] 0)) \<noteq> []"
    using r(2) by (rule TrimSpace_nonempty)
  then show ?thesis
    by (cases "scanRunes (stripComments str) [] [] 0") (simp add: parseStatementsFromString_def)
qed

theorem parse_unterminated_witness:
  "parseStatementsFromString (\<lambda>s. s) (runes ''SELECT 1; SELECT 2'') = Inl NonTerminated \<and>
   parseStatementsFromString (\<lambda>s. s) (runes ''SELECT 1'') = Inl NonTerminated"
proof -
  have a: "\<exists>r\<in>set (afterLastSemicolon (runes ''SELECT 1; SELECT 2'')). \<not> isSpace r"
    by (simp add: afterLastSemicolon_def runes_simps isSpace_def)
  have b: "\<exists>r\<in>set (afterLastSemicolon (runes ''SELECT 1'')). \<not> isSpace r"
    by (simp add: afterLastSemicolon_def runes_simps isSpace_def)
  show ?thesis
    using parse_unterminated [of "\<lambda>s. s" "runes ''SELECT 1; SELECT 2''", OF a]
      parse_unterminated [of "\<lambda>s. s" "runes ''SELECT 1''", OF b]
    by simp
qed

section \<open>Properties of migration.go\<close>

subsection \<open>version\<close>

lemma HasPrefix_iff: "HasPrefix s p \<longleftrightarrow> (\<exists>post. s = p @ post)"
  by (induction s p rule: HasPrefix.induct) auto

lemma Contains_iff: "Contains s sub \<longleftrightarrow> (\<exists>pre post. s = pre @ sub @ post)"
proof (induction s)
  case Nil
  then show ?case by simp
next
  case (Cons c s)
  show ?case
  proof
    assume "Contains (c # s) sub"
    then consider "HasPrefix (c # s) sub" | "Contains s sub" by auto
    then show "\<exists>pre post. c # s = pre @ sub @ post"
    proof cases
      case 1
      then obtain post where "c # s = sub @ post" unfolding HasPrefix_iff by blast
      then have "c # s = [] @ sub @ post" by simp
      then show ?thesis by blast
    next
      case 2
      then obtain pre post where "s = pre @ sub @ post" using Cons.IH by blast
      then have "c # s = (c # pre) @ sub @ post" by simp
      then show ?thesis by blast
    qed
  next
    assume "\<exists>pre post. c # s = pre @ sub @ post"
    then obtain pre post where eq: "c # s = pre @ sub @ post" by blast
    show "Contains (c # s) sub"
    proof (cases pre)
      case Nil
      with eq have "HasPrefix (c # s) sub" unfolding HasPrefix_iff by auto
      then show ?thesis by simp
    next
      case (Cons a pre')
      with eq have "s = pre' @ sub @ post" by simp
      then have "Contains s sub" using Cons.IH by blast
      then show ?thesis by simp
    qed
  qed
qed

lemma map_split:
  assumes "map f s = a @ b"
  obtains x y where "s = x @ y" "map f x = a" "map f y = b"
  using assms by (auto simp: map_eq_append_conv)

lemma containsFold_iff: "containsFold env s sub \<longleftrightarrow> Contains (ToLower env s) sub"
proof
  assume "containsFold env s sub"
  then obtain pre mid post where "s = pre @ mid @ post" "ToLower env mid = sub"
    unfolding containsFold_def by blast
  then have "ToLower env s = ToLower env pre @ sub @ ToLower env post"
    by (simp add: ToLower_def)
  then show "Contains (ToLower env s) sub" unfolding Contains_iff by blast
next
  assume "Contains (ToLower env s) sub"
  then obtain pre' post' where "map (toLowerRune env) s = pre' @ sub @ post'"
    unfolding Contains_iff ToLower_def by blast
  then obtain pre rest where 1: "s = pre @ rest" "map (toLowerRune env) rest = sub @ post'"
    using map_split by blast
  then obtain mid post where 2: "rest = mid @ post" "map (toLowerRune env) mid = sub"
    using map_split by blast
  from 1 2 have "s = pre @ mid @ post \<and> ToLower env mid = sub" by (simp add: ToLower_def)
  then show "containsFold env s sub" unfolding containsFold_def by blast
qed

lemma versionOfBanner_cases:
  "versionOfBanner env banner =
     (if containsFold env banner (runes ''postgresql'') then Inr PostgreSQL
      else if containsFold env banner (runes ''mariadb'') \<or> containsFold env banner (runes ''mysql'')
      then Inr MySQL else Inl (UnknownType (ToLower env banner)))"
  by (simp add: versionOfBanner_def containsFold_iff Let_def)

lemma version_one_row:
  assumes "fault env (trace tx) QueryVersion = None" "versionRows tx = [Inr banner]"
  shows "fst (version env tx) = versionOfBanner env banner"
  using assms by (simp add: version_def QueryVersionRows_def Let_def)

text \<open>
  C9, amended.  For a database that answers \<open>SELECT version()\<close> with one banner:
  \<open>version\<close> returns PostgreSQL when the banner contains "postgresql"
  case-insensitively; it returns MySQL when the banner contains "mariadb" or "mysql"
  case-insensitively and does not contain "postgresql"; and it fails with the error of
  an unknown database type when the banner contains none of the three.
\<close>

theorem version_dialect:
  assumes "fault env (trace tx) QueryVersion = None" "versionRows tx = [Inr banner]"
  shows "(containsFold env banner (runes ''postgresql'') \<longrightarrow>
            fst (version env tx) = Inr PostgreSQL) \<and>
         (\<not> containsFold env banner (runes ''postgresql'') \<and>
          (containsFold env banner (runes ''mariadb'') \<or> containsFold env banner (runes ''mysql'')) \<longrightarrow>
            fst (version env tx) = Inr MySQL) \<and>
         (\<not> containsFold env banner (runes ''postgresql'') \<and>
          \<not> containsFold env banner (runes ''mariadb'') \<and>
          \<not> containsFold env banner (runes ''mysql'') \<longrightarrow>
            fst (version env tx) = Inl (UnknownType (ToLower env banner)))"
  unfolding version_one_row [OF assms] versionOfBanner_cases by simp

lemmas banner_eval = containsFold_iff runes_simps ToLower_def toLowerRune_def quietEnv_def freshDB_def

theorem version_dialect_witness:
  "fst (version quietEnv (freshDB ''PostgreSQL 12.2 on x86_64-apple-darwin19.4.0'')) = Inr PostgreSQL \<and>
   fst (version quietEnv (freshDB ''10.4.11-MariaDB'')) = Inr MySQL \<and>
   fst (version quietEnv (freshDB ''8.0.19 MySQL Community Server'')) = Inr MySQL \<and>
   fst (version quietEnv (freshDB ''3.31.1 SQLite'')) = Inl (UnknownType (runes ''3.31.1 sqlite''))"
proof -
  have f: "fault quietEnv (trace (freshDB b)) QueryVersion = None" for b
    by (simp add: quietEnv_def)
  have r: "versionRows (freshDB b) = [Inr (runes b)]" for b
    by (simp add: freshDB_def)
  show ?thesis
    using version_dialect [OF f r, of "''PostgreSQL 12.2 on x86_64-apple-darwin19.4.0''"]
      version_dialect [OF f r, of "''10.4.11-MariaDB''"]
      version_dialect [OF f r, of "''8.0.19 MySQL Community Server''"]
      version_dialect [OF f r, of "''3.31.1 SQLite''"]
    by (simp add: banner_eval)
qed

text \<open>
  C9 as stated fails: this banner contains "mysql", and \<open>version\<close> returns PostgreSQL,
  because the test for "postgresql" comes first.
\<close>

theorem version_mysql_counterexample:
  "containsFold quietEnv (runes ''PostgreSQL 12.2 on mysql-host'') (runes ''mysql'') \<and>
   fst (version quietEnv (freshDB ''PostgreSQL 12.2 on mysql-host'')) = Inr PostgreSQL"
  by (simp add: version_def QueryVersionRows_def versionOfBanner_def banner_eval)

subsection \<open>hash\<close>

lemma hexdigit_inj:
  assumes "i < 16" "j < 16" "hexdigit i = hexdigit j"
  shows "i = j"
proof -
  have "distinct ''0123456789abcdef''" by simp
  moreover have "length ''0123456789abcdef'' = 16" by simp
  ultimately show ?thesis
    using assms unfolding hexdigit_def by (metis nth_eq_iff_index_eq)
qed

lemma hex_byte_inj:
  assumes "hexdigit (unat a div 16) = hexdigit (unat b div 16)"
    and "hexdigit (unat a mod 16) = hexdigit (unat b mod 16)"
  shows "a = (b :: byte)"
proof -
  have "unat a < 256" "unat b < 256"
    using unsigned_less [of a, where 'a = nat] unsigned_less [of b, where 'a = nat] by simp_all
  then have "unat a div 16 < 16" "unat b div 16 < 16" by simp_all
  with assms(1) have d: "unat a div 16 = unat b div 16" by (intro hexdigit_inj)
  have "unat a mod 16 < 16" "unat b mod 16 < 16" by simp_all
  with assms(2) have m: "unat a mod 16 = unat b mod 16" by (intro hexdigit_inj)
  have "unat a = unat b"
    using d m by (metis div_mult_mod_eq)
  then show ?thesis by (simp add: word_unat_eq_iff)
qed

lemma EncodeToString_inj: "EncodeToString xs = EncodeToString ys \<Longrightarrow> xs = ys"
proof (induction xs arbitrary: ys)
  case Nil
  then show ?case by (cases ys) (simp_all add: EncodeToString_def)
next
  case (Cons x xs)
  then obtain y ys' where ys: "ys = y # ys'"
    by (cases ys) (simp_all add: EncodeToString_def)
  from Cons.prems have "x = y" and "EncodeToString xs = EncodeToString ys'"
    unfolding ys by (auto simp: EncodeToString_def intro: hex_byte_inj)
  with Cons.IH ys show ?case by simp
qed

lemma hash_eq_iff:
  "hash m1 = hash m2 \<longleftrightarrow>
     Sum256 (bytes (Join (Statements m1) '';'')) = Sum256 (bytes (Join (Statements m2) '';''))"
  unfolding hash_def by (auto dest: EncodeToString_inj)

lemma Join_Cons: "xs \<noteq> [] \<Longrightarrow> Join (x # xs) sep = x @ sep @ Join xs sep"
  by (cases xs) simp_all

lemma separator_split:
  assumes "c \<notin> set x" "c \<notin> set y" "x @ c # a = y @ c # b"
  shows "x = y \<and> a = b"
  using assms
proof (induction x arbitrary: y)
  case Nil
  then show ?case by (cases y) auto
next
  case (Cons h t)
  then show ?case by (cases y) auto
qed

lemma separator_absent:
  assumes "c \<notin> set x" shows "x \<noteq> y @ c # b"
  using assms by auto

lemma Join_inj:
  assumes "\<forall>s\<in>set xs. CHR '';'' \<notin> set s" "\<forall>s\<in>set ys. CHR '';'' \<notin> set s"
    and "xs \<noteq> []" "ys \<noteq> []" "Join xs '';'' = Join ys '';''"
  shows "xs = ys"
  using assms
proof (induction xs arbitrary: ys)
  case Nil
  then show ?case by simp
next
  case (Cons x xs)
  from Cons.prems(4) obtain y ys' where ys: "ys = y # ys'" by (cases ys) auto
  have x: "CHR '';'' \<notin> set x" and y: "CHR '';'' \<notin> set y"
    using Cons.prems(1,2) ys by auto
  have eq: "Join (x # xs) '';'' = Join (y # ys') '';''"
    using Cons.prems(5) ys by simp
  show ?case
  proof (cases "xs = []")
    case xs: True
    show ?thesis
    proof (cases "ys' = []")
      case True
      with xs ys eq show ?thesis by simp
    next
      case False
      then have "Join (y # ys') '';'' = y @ CHR '';'' # Join ys' '';''"
        by (simp add: Join_Cons)
      with eq xs have "x = y @ CHR '';'' # Join ys' '';''" by simp
      with separator_absent [OF x] show ?thesis by blast
    qed
  next
    case xs: False
    then have jx: "Join (x # xs) '';'' = x @ CHR '';'' # Join xs '';''"
      by (simp add: Join_Cons)
    show ?thesis
    proof (cases "ys' = []")
      case True
      with eq jx have "y = x @ CHR '';'' # Join xs '';''" by simp
      with separator_absent [OF y] show ?thesis by blast
    next
      case False
      then have "Join (y # ys') '';'' = y @ CHR '';'' # Join ys' '';''"
        by (simp add: Join_Cons)
      with eq jx have "x @ CHR '';'' # Join xs '';'' = y @ CHR '';'' # Join ys' '';''"
        by simp
      from separator_split [OF x y this]
      have "x = y" and j: "Join xs '';'' = Join ys' '';''" by simp_all
      have "\<forall>s\<in>set xs. CHR '';'' \<notin> set s" "\<forall>s\<in>set ys'. CHR '';'' \<notin> set s"
        using Cons.prems(1,2) ys by simp_all
      from Cons.IH [OF this xs False j] have "xs = ys'" .
      with \<open>x = y\<close> ys show ?thesis by simp
    qed
  qed
qed

text \<open>
  C2, amended.  For two migrations whose statements hold no \<open>';'\<close> and that have at
  least one statement each: when the statement sequences differ (in the text of a
  statement or in their number), the texts given to SHA-256 differ; and two checksums
  are equal exactly when the SHA-256 digests of those texts are.
\<close>

theorem hash_statements:
  assumes "\<forall>s\<in>set (Statements m1). CHR '';'' \<notin> set s"
    and "\<forall>s\<in>set (Statements m2). CHR '';'' \<notin> set s"
    and "Statements m1 \<noteq> []" "Statements m2 \<noteq> []"
    and "Statements m1 \<noteq> Statements m2"
  shows "Join (Statements m1) '';'' \<noteq> Join (Statements m2) '';'' \<and>
         (hash m1 = hash m2 \<longleftrightarrow>
            Sum256 (bytes (Join (Statements m1) '';''))
              = Sum256 (bytes (Join (Statements m2) '';'')))"
  using assms Join_inj hash_eq_iff by blast

theorem hash_statements_witness:
  "Join [''CREATE TABLE t (id INT)'', ''INSERT INTO t VALUES (1)''] '';''
     \<noteq> Join [''CREATE TABLE t (id INT)'', ''INSERT INTO t VALUES (2)''] '';'' \<and>
   (hash (migration ''users'' 1 [''CREATE TABLE t (id INT)'', ''INSERT INTO t VALUES (1)''])
      = hash (migration ''users'' 1 [''CREATE TABLE t (id INT)'', ''INSERT INTO t VALUES (2)''])
    \<longleftrightarrow>
    Sum256 (bytes (Join [''CREATE TABLE t (id INT)'', ''INSERT INTO t VALUES (1)''] '';''))
      = Sum256 (bytes (Join [''CREATE TABLE t (id INT)'', ''INSERT INTO t VALUES (2)''] '';'')))"
  using hash_statements
    [of "migration ''users'' 1 [''CREATE TABLE t (id INT)'', ''INSERT INTO t VALUES (1)'']"
        "migration ''users'' 1 [''CREATE TABLE t (id INT)'', ''INSERT INTO t VALUES (2)'']"]
  by (simp add: migration_def)

text \<open>
  C2 as stated fails: one statement that holds a \<open>';'\<close> and the two statements it splits
  into differ in text and in number, and have the same checksum.
\<close>

theorem hash_split_counterexample:
  "Statements (migration ''users'' 1 [''DELETE FROM t;DROP TABLE t''])
     \<noteq> Statements (migration ''users'' 1 [''DELETE FROM t'', ''DROP TABLE t'']) \<and>
   hash (migration ''users'' 1 [''DELETE FROM t;DROP TABLE t''])
     = hash (migration ''users'' 1 [''DELETE FROM t'', ''DROP TABLE t''])"
  by (simp add: migration_def hash_def)

subsection \<open>The calls\<close>

lemma Exec_statement:
  "Exec env db (ExecStatement s) =
     (fault env (trace db) (ExecStatement s),
      if fault env (trace db) (ExecStatement s) = None
      then db\<lparr>trace := trace db @ [ExecStatement s],
              table := effect env (trace db) s (table db)\<rparr>
      else db\<lparr>trace := trace db @ [ExecStatement s]\<rparr>)"
  by (simp add: Exec_def Let_def split: option.splits)

lemma Exec_create:
  "Exec env db ExecCreateTable = (fault env (trace db) ExecCreateTable, db\<lparr>trace := trace db @ [ExecCreateTable]\<rparr>)"
  by (simp add: Exec_def Let_def split: option.splits)

lemma Exec_insert_ok:
  assumes "Exec env db (ExecInsert t e) = (None, db')"
  shows "db' = db\<lparr>trace := trace db @ [ExecInsert t e], table := table db @ [e]\<rparr>"
    and "entryKey e \<notin> entryKey ` set (table db)"
    and "fault env (trace db) (ExecInsert t e) = None"
  using assms by (auto simp: Exec_def Let_def split: option.splits if_splits)

lemma Exec_insert_refused:
  assumes "Exec env db (ExecInsert t e) = (Some err, db')"
  shows "db' = db\<lparr>trace := trace db @ [ExecInsert t e]\<rparr>"
  using assms by (auto simp: Exec_def Let_def split: option.splits if_splits)

lemma Exec_update:
  "Exec env db (ExecUpdate t e) =
     (fault env (trace db) (ExecUpdate t e),
      if fault env (trace db) (ExecUpdate t e) = None
      then db\<lparr>trace := trace db @ [ExecUpdate t e],
              table := map (\<lambda>r. if entryKey r = entryKey e then e else r) (table db)\<rparr>
      else db\<lparr>trace := trace db @ [ExecUpdate t e]\<rparr>)"
  by (simp add: Exec_def Let_def split: option.splits)

lemma harmless_Nil [simp]: "harmless env []"
  by (simp add: harmless_def)

lemma harmless_Cons:
  "harmless env (s # stmts) \<longleftrightarrow> (\<forall>tr rows. effect env tr s rows = rows) \<and> harmless env stmts"
  by (auto simp: harmless_def)


text \<open>
  execute: the statements run in order up to the first one refused.  The history table
  is as before when the statements that ran are harmless to it.
\<close>

lemma execute_ok:
  "execute env db stmts = (None, db') \<Longrightarrow>
     trace db' = trace db @ map ExecStatement stmts \<and> versionRows db' = versionRows db \<and>
     (harmless env stmts \<longrightarrow> table db' = table db)"
proof (induction stmts arbitrary: db)
  case Nil
  then show ?case by simp
next
  case (Cons s stmts)
  let ?db1 = "db\<lparr>trace := trace db @ [ExecStatement s],
                  table := effect env (trace db) s (table db)\<rparr>"
  from Cons.prems have "execute env ?db1 stmts = (None, db')"
    by (simp add: Exec_statement split: option.splits if_splits)
  from Cons.IH [OF this] show ?case by (simp add: harmless_Cons)
qed


subsection \<open>One migration\<close>

lemma entryKey_newEntry [simp]: "entryKey (newEntry env db m) = migrationKey m"
  by (simp add: entryKey_def newEntry_def migrationKey_def)

lemma entryKey_succeeded [simp]: "entryKey (succeeded e d) = entryKey e"
  by (simp add: entryKey_def succeeded_def)

lemma entryKey_failed [simp]: "entryKey (failed e err) = entryKey e"
  by (simp add: entryKey_def failed_def)

lemma update_absent:
  "k \<notin> entryKey ` set rows \<Longrightarrow> map (\<lambda>r. if entryKey r = k then e else r) rows = rows"
  by (induction rows) auto

lemma update_last:
  assumes "entryKey e0 \<notin> entryKey ` set rows"
  shows "map (\<lambda>r. if entryKey r = entryKey e0 then e else r) (rows @ [e0]) = rows @ [e]"
  using assms by (simp add: update_absent)

lemma applyMigration_insert:
  assumes "insert_entry env t db (newEntry env db m) = (Some err, db1)"
  shows "applyMigration env t db m = (Some (FailedToInsert err), db\<lparr>trace := trace db @ [ExecInsert t (newEntry env db m)]\<rparr>)"
  using assms Exec_insert_refused [of env db t "newEntry env db m" err db1]
  by (simp add: applyMigration_def newEntry_def Let_def insert_entry_def)

lemma applyMigration_execute:
  assumes "insert_entry env t db (newEntry env db m) = (None, db1)"
    and "execute env db1 (Statements m) = (Some err, db2)"
  shows "applyMigration env t db m =
           (Some (FailedToExecuteMigration (Migration.Group m) (Migration.Version m) err),
            snd (update_entry env t db2 (failed (newEntry env db m) err)))"
  using assms
  by (simp add: applyMigration_def newEntry_def failed_def Let_def split: prod.splits)

lemma applyMigration_update:
  assumes "insert_entry env t db (newEntry env db m) = (None, db1)"
    and "execute env db1 (Statements m) = (None, db2)"
  shows "applyMigration env t db m =
           (map_option FailedToUpdate (fst (update_entry env t db2
               (succeeded (newEntry env db m) (Sub (now env (trace db2) 0) (now env (trace db) 1))))),
            snd (update_entry env t db2
               (succeeded (newEntry env db m) (Sub (now env (trace db2) 0) (now env (trace db) 1)))))"
  using assms
  by (simp add: applyMigration_def newEntry_def succeeded_def Let_def split: prod.splits option.splits)

text \<open>
  The three ways in which a migration ends after its row was inserted.  What is said of
  the table holds when the statements that ran are harmless to it.
\<close>

lemma applyMigration_None:
  assumes "applyMigration env t db m = (None, db')"
  shows "\<exists>d. trace db' = trace db @ ExecInsert t (newEntry env db m)
                        # map ExecStatement (Statements m)
                        @ [ExecUpdate t (succeeded (newEntry env db m) d)] \<and>
             versionRows db' = versionRows db \<and>
             (harmless env (Statements m) \<longrightarrow>
                table db' = table db @ [succeeded (newEntry env db m) d])"
    and "migrationKey m \<notin> entryKey ` set (table db)"
proof -
  let ?e0 = "newEntry env db m"
  obtain ri db1 where ins: "insert_entry env t db ?e0 = (ri, db1)" by fastforce
  with assms have ri: "ri = None"
    using applyMigration_insert [of env t db m] by (cases ri) auto
  from ins ri have db1: "db1 = db\<lparr>trace := trace db @ [ExecInsert t ?e0], table := table db @ [?e0]\<rparr>"
    and fresh: "entryKey ?e0 \<notin> entryKey ` set (table db)"
    using Exec_insert_ok [of env db t ?e0 db1] by (simp_all add: insert_entry_def)
  obtain re db2 where ex: "execute env db1 (Statements m) = (re, db2)" by fastforce
  with assms ins ri have re: "re = None"
    using applyMigration_execute [of env t db m db1] by (cases re) auto
  from execute_ok [OF ex [unfolded re]]
  have db2: "trace db2 = trace db1 @ map ExecStatement (Statements m)"
    "versionRows db2 = versionRows db1"
    "harmless env (Statements m) \<longrightarrow> table db2 = table db1"
    by simp_all
  define d where "d = Sub (now env (trace db2) 0) (now env (trace db) 1)"
  from applyMigration_update [OF ins [unfolded ri] ex [unfolded re]] assms
  have up: "update_entry env t db2 (succeeded ?e0 d) = (None, db')"
    unfolding d_def by (cases "update_entry env t db2 (succeeded ?e0 (Sub (now env (trace db2) 0) (now env (trace db) 1)))") auto
  then have "fault env (trace db2) (ExecUpdate t (succeeded ?e0 d)) = None"
    and db': "db' = db2\<lparr>trace := trace db2 @ [ExecUpdate t (succeeded ?e0 d)],
              table := map (\<lambda>r. if entryKey r = entryKey (succeeded ?e0 d) then succeeded ?e0 d else r) (table db2)\<rparr>"
    by (auto simp: update_entry_def Exec_update split: if_splits)
  have 1: "trace db' = trace db @ ExecInsert t ?e0 # map ExecStatement (Statements m)
                        @ [ExecUpdate t (succeeded ?e0 d)]"
    by (simp add: db' db2(1) db1)
  have 2: "versionRows db' = versionRows db"
    by (simp add: db' db2(2) db1)
  have 3: "harmless env (Statements m) \<longrightarrow> table db' = table db @ [succeeded ?e0 d]"
    using fresh update_last [of ?e0 "table db" "succeeded ?e0 d"] db2(3)
    by (simp add: db' db1)
  from 1 2 3 show "\<exists>d. trace db' = trace db @ ExecInsert t ?e0 # map ExecStatement (Statements m)
                        @ [ExecUpdate t (succeeded ?e0 d)] \<and>
             versionRows db' = versionRows db \<and>
             (harmless env (Statements m) \<longrightarrow> table db' = table db @ [succeeded ?e0 d])"
    by blast
  from fresh show "migrationKey m \<notin> entryKey ` set (table db)" by simp
qed


subsection \<open>Loading the history\<close>

lemma version_db: "version env db = (r, db1) \<Longrightarrow> db1 = db\<lparr>trace := trace db @ [QueryVersion]\<rparr>"
  by (auto simp: version_def QueryVersionRows_def Let_def split: option.splits sum.splits)

lemma CreateTable_db:
  "CreateTable env db = (r, db1) \<Longrightarrow> db1 = db\<lparr>trace := trace db @ [ExecCreateTable]\<rparr>"
  by (auto simp: CreateTable_def Exec_create)

lemma scanHistoryRows_Inr: "scanHistoryRows res (map Inr rows) = Inr (res @ rows)"
  by (induction rows arbitrary: res) simp_all

lemma History_db:
  "History env db = (r, db1) \<Longrightarrow> db1 = db\<lparr>trace := trace db @ [QueryHistory]\<rparr>"
  by (auto simp: History_def QueryHistoryRows_def Let_def scanHistoryRows_Inr split: option.splits)

lemma History_entries: "History env db = (Inr entries, db1) \<Longrightarrow> entries = table db"
  by (auto simp: History_def QueryHistoryRows_def Let_def scanHistoryRows_Inr split: option.splits)

lemma loaded_state:
  assumes "version env db = (Inr dbType, db1)" "CreateTable env db1 = (None, db2)"
    and "History env db2 = (Inr entries, db3)"
  shows "db3 = loaded db" and "entries = table db"
proof -
  from assms(1) have 1: "db1 = db\<lparr>trace := trace db @ [QueryVersion]\<rparr>" by (rule version_db)
  from assms(2) have 2: "db2 = db1\<lparr>trace := trace db1 @ [ExecCreateTable]\<rparr>" by (rule CreateTable_db)
  from assms(3) have 3: "db3 = db2\<lparr>trace := trace db2 @ [QueryHistory]\<rparr>" by (rule History_db)
  show "db3 = loaded db" by (simp add: 1 2 3 loaded_def)
  from assms(3) have "entries = table db2" by (rule History_entries)
  then show "entries = table db" by (simp add: 1 2)
qed

lemma Apply_loaded:
  assumes "version env db = (Inr dbType, db1)" "CreateTable env db1 = (None, db2)"
    and "History env db2 = (Inr entries, db3)"
  shows "Apply env db migrations =
     (case dirtyCheck (table db) of
        Some err \<Rightarrow> (Some err, loaded db)
      | None \<Rightarrow>
     (case groupBy (table db) migrations [] of
        Inl err \<Rightarrow> (Some err, loaded db)
      | Inr groups \<Rightarrow>
     (case uniquenessCheck env (rangeCheck env (map fst groups)) groups of
        Inl err \<Rightarrow> (Some err, loaded db)
      | Inr groups' \<Rightarrow>
          applyGroups env dbType (loaded db)
            (map (groupAt groups') (rangeApply env (map fst groups'))))))"
  using assms loaded_state [OF assms] by (simp add: Apply_def)

lemma dirtyCheck_Some:
  assumes "\<exists>e\<in>set entries. Status e \<noteq> Success"
  shows "\<exists>e\<in>set entries. Status e \<noteq> Success \<and> dirtyCheck entries = Some (Dirty e)"
  using assms by (induction entries) auto

lemma dirtyCheck_None: "\<forall>e\<in>set entries. Status e = Success \<Longrightarrow> dirtyCheck entries = None"
  by (induction entries) auto

lemma dirtyCheck_None_iff: "dirtyCheck entries = None \<longleftrightarrow> (\<forall>e\<in>set entries. Status e = Success)"
  by (induction entries) auto

text \<open>
  C3.  When the history that \<open>Apply\<close> loads holds a row whose status is not
  \<open>success\<close>, \<open>Apply\<close> returns the dirty-state error naming such a row, whatever the
  migrations and their groups are; the table is as it was, and the only calls made are
  the three that load the history: no row was inserted and no statement executed.
\<close>

theorem Apply_dirty:
  assumes "version env db = (Inr dbType, db1)" "CreateTable env db1 = (None, db2)"
    and "History env db2 = (Inr entries, db3)"
    and "\<exists>e\<in>set entries. Status e \<noteq> Success"
  shows "\<exists>e\<in>set entries. Status e \<noteq> Success \<and>
           fst (Apply env db migrations) = Some (Dirty e) \<and>
           table (snd (Apply env db migrations)) = table db \<and>
           trace (snd (Apply env db migrations))
             = trace db @ [QueryVersion, ExecCreateTable, QueryHistory]"
proof -
  have entries: "entries = table db" using loaded_state(2) [OF assms(1-3)] .
  from dirtyCheck_Some [OF assms(4)] obtain e where
    e: "e \<in> set entries" "Status e \<noteq> Success" "dirtyCheck (table db) = Some (Dirty e)"
    unfolding entries by blast
  have "Apply env db migrations = (Some (Dirty e), loaded db)"
    by (simp add: Apply_loaded [OF assms(1-3)] e(3))
  with e(1,2) show ?thesis by (auto simp: loaded_def)
qed

subsection \<open>The database of the examples\<close>

lemma quiet_version:
  assumes "versionRows db = [Inr (runes ''PostgreSQL 12.2'')]"
  shows "version quietEnv db = (Inr PostgreSQL, db\<lparr>trace := trace db @ [QueryVersion]\<rparr>)"
  using assms
  by (simp add: version_def QueryVersionRows_def versionOfBanner_def quietEnv_def runes_simps
      ToLower_def toLowerRune_def)

lemma quiet_CreateTable:
  "CreateTable quietEnv db = (None, db\<lparr>trace := trace db @ [ExecCreateTable]\<rparr>)"
  by (simp add: CreateTable_def Exec_create quietEnv_def)

lemma quiet_History:
  "History quietEnv db = (Inr (table db), db\<lparr>trace := trace db @ [QueryHistory]\<rparr>)"
  by (simp add: History_def QueryHistoryRows_def scanHistoryRows_Inr quietEnv_def)

lemma hash_users_1_edited:
  "hash (migration ''users'' 1 [''CREATE TABLE users (id BIGINT)''])
     = ''c9785572640c0c122e97aafde4e69b7701d548598064e152cbee412cbdcbfef7''"
  by code_simp

theorem Apply_dirty_witness:
  "fst (Apply quietEnv
         (historyDB [row ''users'' 1 ''6759b2f7a2c791f011083097ded90f7610687e943dd00b979b421c72b4171224'' Success,
                     row ''users'' 2 ''b1b2147a1997b449e34e456f9b377e4fd75dfda095cafdab4a9bfdd1d5fb81db'' Failed])
         [migration ''billing'' 1 [''CREATE TABLE invoice (id INT)'']])
     = Some (Dirty (row ''users'' 2 ''b1b2147a1997b449e34e456f9b377e4fd75dfda095cafdab4a9bfdd1d5fb81db'' Failed)) \<and>
   table (snd (Apply quietEnv
         (historyDB [row ''users'' 1 ''6759b2f7a2c791f011083097ded90f7610687e943dd00b979b421c72b4171224'' Success,
                     row ''users'' 2 ''b1b2147a1997b449e34e456f9b377e4fd75dfda095cafdab4a9bfdd1d5fb81db'' Failed])
         [migration ''billing'' 1 [''CREATE TABLE invoice (id INT)'']]))
     = [row ''users'' 1 ''6759b2f7a2c791f011083097ded90f7610687e943dd00b979b421c72b4171224'' Success,
        row ''users'' 2 ''b1b2147a1997b449e34e456f9b377e4fd75dfda095cafdab4a9bfdd1d5fb81db'' Failed] \<and>
   trace (snd (Apply quietEnv
         (historyDB [row ''users'' 1 ''6759b2f7a2c791f011083097ded90f7610687e943dd00b979b421c72b4171224'' Success,
                     row ''users'' 2 ''b1b2147a1997b449e34e456f9b377e4fd75dfda095cafdab4a9bfdd1d5fb81db'' Failed])
         [migration ''billing'' 1 [''CREATE TABLE invoice (id INT)'']]))
     = [QueryVersion, ExecCreateTable, QueryHistory]"
proof -
  let ?rows = "[row ''users'' 1 ''6759b2f7a2c791f011083097ded90f7610687e943dd00b979b421c72b4171224'' Success,
                row ''users'' 2 ''b1b2147a1997b449e34e456f9b377e4fd75dfda095cafdab4a9bfdd1d5fb81db'' Failed]"
  have v: "versionRows (historyDB ?rows) = [Inr (runes ''PostgreSQL 12.2'')]"
    by (simp add: historyDB_def)
  have d: "\<exists>e\<in>set (table ((historyDB ?rows)\<lparr>trace := trace (historyDB ?rows) @ [QueryVersion]\<rparr>
                \<lparr>trace := trace ((historyDB ?rows)\<lparr>trace := trace (historyDB ?rows) @ [QueryVersion]\<rparr>) @ [ExecCreateTable]\<rparr>)).
          Status e \<noteq> Success"
    by (simp add: historyDB_def row_def Success_def Failed_def)
  show ?thesis
    using Apply_dirty [OF quiet_version [OF v] quiet_CreateTable quiet_History d,
        of "[migration ''billing'' 1 [''CREATE TABLE invoice (id INT)'']]"]
    by (simp add: historyDB_def row_def Success_def Failed_def)
qed

subsection \<open>Migrations that are in the history\<close>

lemma alreadyApplied_drift:
  assumes "distinct (map entryKey entries)" "e \<in> set entries"
    and "entryKey e = migrationKey m" "Checksum e \<noteq> hash m"
  shows "alreadyApplied m entries = Inl (Modified e m)"
  using assms
proof (induction entries)
  case Nil
  then show ?case by simp
next
  case (Cons x entries)
  show ?case
  proof (cases "x = e")
    case True
    with Cons.prems(3,4) show ?thesis
      by (auto simp: entryKey_def migrationKey_def)
  next
    case False
    with Cons.prems have e: "e \<in> set entries" and "entryKey x \<noteq> entryKey e"
      by (auto simp: image_iff)
    with Cons.prems(3) have "\<not> (Migration.Group m = HistoryEntry.Group x
        \<and> Migration.Version m = HistoryEntry.Version x)"
      by (auto simp: entryKey_def migrationKey_def)
    moreover have "alreadyApplied m entries = Inl (Modified e m)"
      using Cons.prems e by (intro Cons.IH) auto
    ultimately show ?thesis by auto
  qed
qed

lemma alreadyApplied_Inl:
  assumes "alreadyApplied m entries = Inl err"
  shows "\<exists>e\<in>set entries. err = Modified e m \<and> entryKey e = migrationKey m \<and> Checksum e \<noteq> hash m"
  using assms
  by (induction entries) (auto simp: entryKey_def migrationKey_def split: if_splits)

lemma groupBy_drift:
  assumes "m \<in> set ms" "alreadyApplied m entries = Inl err"
  shows "\<exists>m'\<in>set ms. \<exists>err'. alreadyApplied m' entries = Inl err' \<and> groupBy entries ms G = Inl err'"
  using assms
proof (induction ms arbitrary: G)
  case Nil
  then show ?case by simp
next
  case (Cons x ms)
  show ?case
  proof (cases "alreadyApplied x entries")
    case (Inl e)
    then show ?thesis by auto
  next
    case (Inr b)
    with Cons.prems have m: "m \<in> set ms" by auto
    from Cons.IH [OF m Cons.prems(2)] Inr show ?thesis
      by (cases b) auto
  qed
qed

text \<open>
  C4, amended.  When the history that \<open>Apply\<close> loads holds only rows of status
  \<open>success\<close>, at most one row for a group and version (the primary key of the table),
  and a row with the group and version of a supplied migration whose checksum is not
  the \<open>hash\<close> of that migration, \<open>Apply\<close> returns the drift error for such a row and
  migration; the table is as it was, and the only calls made are the three that load
  the history.
\<close>

theorem Apply_drift:
  assumes "version env db = (Inr dbType, db1)" "CreateTable env db1 = (None, db2)"
    and "History env db2 = (Inr entries, db3)"
    and "\<forall>e\<in>set entries. Status e = Success" "distinct (map entryKey entries)"
    and "m \<in> set migrations" "e \<in> set entries"
    and "entryKey e = migrationKey m" "Checksum e \<noteq> hash m"
  shows "\<exists>e' m'. e' \<in> set entries \<and> m' \<in> set migrations \<and>
           entryKey e' = migrationKey m' \<and> Checksum e' \<noteq> hash m' \<and>
           fst (Apply env db migrations) = Some (Modified e' m') \<and>
           table (snd (Apply env db migrations)) = table db \<and>
           trace (snd (Apply env db migrations))
             = trace db @ [QueryVersion, ExecCreateTable, QueryHistory]"
proof -
  have entries: "entries = table db" using loaded_state(2) [OF assms(1-3)] .
  have clean: "dirtyCheck (table db) = None"
    using assms(4) unfolding entries by (rule dirtyCheck_None)
  have "alreadyApplied m entries = Inl (Modified e m)"
    using assms(5,7,8,9) by (rule alreadyApplied_drift)
  from groupBy_drift [OF assms(6) this] obtain m' err' where
    m': "m' \<in> set migrations" "alreadyApplied m' entries = Inl err'"
      "groupBy entries migrations [] = Inl err'"
    by blast
  from alreadyApplied_Inl [OF m'(2)] obtain e' where
    e': "e' \<in> set entries" "err' = Modified e' m'" "entryKey e' = migrationKey m'"
      "Checksum e' \<noteq> hash m'"
    by blast
  have "Apply env db migrations = (Some (Modified e' m'), loaded db)"
    using m'(3) e'(2) clean by (simp add: Apply_loaded [OF assms(1-3)] entries [symmetric])
  with m'(1) e' show ?thesis by (auto simp: loaded_def)
qed

theorem Apply_drift_witness:
  "fst (Apply quietEnv
         (historyDB [row ''users'' 1 ''6759b2f7a2c791f011083097ded90f7610687e943dd00b979b421c72b4171224'' Success])
         [migration ''users'' 1 [''CREATE TABLE users (id BIGINT)'']])
     = Some (Modified
         (row ''users'' 1 ''6759b2f7a2c791f011083097ded90f7610687e943dd00b979b421c72b4171224'' Success)
         (migration ''users'' 1 [''CREATE TABLE users (id BIGINT)''])) \<and>
   table (snd (Apply quietEnv
         (historyDB [row ''users'' 1 ''6759b2f7a2c791f011083097ded90f7610687e943dd00b979b421c72b4171224'' Success])
         [migration ''users'' 1 [''CREATE TABLE users (id BIGINT)'']]))
     = [row ''users'' 1 ''6759b2f7a2c791f011083097ded90f7610687e943dd00b979b421c72b4171224'' Success] \<and>
   trace (snd (Apply quietEnv
         (historyDB [row ''users'' 1 ''6759b2f7a2c791f011083097ded90f7610687e943dd00b979b421c72b4171224'' Success])
         [migration ''users'' 1 [''CREATE TABLE users (id BIGINT)'']]))
     = [QueryVersion, ExecCreateTable, QueryHistory]"
proof -
  let ?e = "row ''users'' 1 ''6759b2f7a2c791f011083097ded90f7610687e943dd00b979b421c72b4171224'' Success"
  let ?m = "migration ''users'' 1 [''CREATE TABLE users (id BIGINT)'']"
  let ?db = "historyDB [?e]"
  let ?db2 = "?db\<lparr>trace := trace ?db @ [QueryVersion]\<rparr>
                 \<lparr>trace := trace (?db\<lparr>trace := trace ?db @ [QueryVersion]\<rparr>) @ [ExecCreateTable]\<rparr>"
  have v: "versionRows ?db = [Inr (runes ''PostgreSQL 12.2'')]"
    by (simp add: historyDB_def)
  have 1: "\<forall>e\<in>set (table ?db2). Status e = Success" by (simp add: historyDB_def row_def)
  have 2: "distinct (map entryKey (table ?db2))" by (simp add: historyDB_def)
  have 3: "?m \<in> set [?m]" by simp
  have 4: "?e \<in> set (table ?db2)" by (simp add: historyDB_def)
  have 5: "entryKey ?e = migrationKey ?m"
    by (simp add: entryKey_def migrationKey_def row_def migration_def)
  have 6: "Checksum ?e \<noteq> hash ?m"
    by (simp add: hash_users_1_edited row_def)
  show ?thesis
    using Apply_drift [OF quiet_version [OF v] quiet_CreateTable quiet_History 1 2 3 4 5 6]
    by (auto simp: historyDB_def)
qed

text \<open>
  C4 as stated fails: the history holds a \<open>success\<close> row for \<open>users\<close> version 1 whose
  checksum is not that of the supplied migration, and \<open>Apply\<close> returns the dirty-state
  error of another row, because the scan for rows that are not \<open>success\<close> comes first.
\<close>

theorem Apply_drift_counterexample:
  "row ''users'' 1 ''6759b2f7a2c791f011083097ded90f7610687e943dd00b979b421c72b4171224'' Success
     \<in> set (table (historyDB
         [row ''users'' 1 ''6759b2f7a2c791f011083097ded90f7610687e943dd00b979b421c72b4171224'' Success,
          row ''users'' 2 ''b1b2147a1997b449e34e456f9b377e4fd75dfda095cafdab4a9bfdd1d5fb81db'' Failed])) \<and>
   Status (row ''users'' 1 ''6759b2f7a2c791f011083097ded90f7610687e943dd00b979b421c72b4171224'' Success)
     = Success \<and>
   entryKey (row ''users'' 1 ''6759b2f7a2c791f011083097ded90f7610687e943dd00b979b421c72b4171224'' Success)
     = migrationKey (migration ''users'' 1 [''CREATE TABLE users (id BIGINT)'']) \<and>
   Checksum (row ''users'' 1 ''6759b2f7a2c791f011083097ded90f7610687e943dd00b979b421c72b4171224'' Success)
     \<noteq> hash (migration ''users'' 1 [''CREATE TABLE users (id BIGINT)'']) \<and>
   fst (Apply quietEnv
         (historyDB
           [row ''users'' 1 ''6759b2f7a2c791f011083097ded90f7610687e943dd00b979b421c72b4171224'' Success,
            row ''users'' 2 ''b1b2147a1997b449e34e456f9b377e4fd75dfda095cafdab4a9bfdd1d5fb81db'' Failed])
         [migration ''users'' 1 [''CREATE TABLE users (id BIGINT)'']])
     = Some (Dirty (row ''users'' 2 ''b1b2147a1997b449e34e456f9b377e4fd75dfda095cafdab4a9bfdd1d5fb81db'' Failed))"
proof -
  let ?rows = "[row ''users'' 1 ''6759b2f7a2c791f011083097ded90f7610687e943dd00b979b421c72b4171224'' Success,
                row ''users'' 2 ''b1b2147a1997b449e34e456f9b377e4fd75dfda095cafdab4a9bfdd1d5fb81db'' Failed]"
  have v: "versionRows (historyDB ?rows) = [Inr (runes ''PostgreSQL 12.2'')]"
    by (simp add: historyDB_def)
  have "dirtyCheck (table (historyDB ?rows))
      = Some (Dirty (row ''users'' 2 ''b1b2147a1997b449e34e456f9b377e4fd75dfda095cafdab4a9bfdd1d5fb81db'' Failed))"
    by (simp add: historyDB_def row_def Success_def Failed_def)
  then have "fst (Apply quietEnv (historyDB ?rows) [migration ''users'' 1 [''CREATE TABLE users (id BIGINT)'']])
      = Some (Dirty (row ''users'' 2 ''b1b2147a1997b449e34e456f9b377e4fd75dfda095cafdab4a9bfdd1d5fb81db'' Failed))"
    by (simp add: Apply_loaded [OF quiet_version [OF v] quiet_CreateTable quiet_History])
  moreover have "Checksum (row ''users'' 1 ''6759b2f7a2c791f011083097ded90f7610687e943dd00b979b421c72b4171224'' Success)
     \<noteq> hash (migration ''users'' 1 [''CREATE TABLE users (id BIGINT)''])"
    by (simp add: hash_users_1_edited row_def)
  ultimately show ?thesis
    by (simp add: historyDB_def entryKey_def migrationKey_def row_def migration_def)
qed

subsection \<open>The uniqueness check\<close>

lemma checkCandidates_None_iff:
  "checkCandidates v candidates = None \<longleftrightarrow> (\<forall>m\<in>set candidates. v < Migration.Version m)"
  by (induction candidates) auto

lemmas Apply_eval =
  groupAt_def applyMigration_def insert_entry_def update_entry_def Exec_def Let_def
  quietEnv_def historyDB_def migration_def loaded_def entryKey_def migrationKey_def
  Success_def Executing_def Failed_def SQL_def

text \<open>
  C1 fails on the code.  \<open>strictMonotonicVersion\<close> stays \<open>-1\<close>, so the check only
  refuses negative versions.  With two pending migrations of group \<open>users\<close> and version
  3 and an empty history, \<open>Apply\<close> inserts the row of the first, executes its statement
  and marks it \<open>success\<close>; the error it returns is the one of the second insert, which
  the primary key refuses.
\<close>

theorem Apply_duplicate_version:
  "fst (Apply quietEnv (historyDB [])
         [migration ''users'' 3 [''CREATE TABLE a (id INT)''],
          migration ''users'' 3 [''CREATE TABLE b (id INT)'']])
     = Some (FailedToInsert duplicateKey) \<and>
   filter (\<lambda>c. case c of ExecStatement s \<Rightarrow> True | _ \<Rightarrow> False)
     (trace (snd (Apply quietEnv (historyDB [])
         [migration ''users'' 3 [''CREATE TABLE a (id INT)''],
          migration ''users'' 3 [''CREATE TABLE b (id INT)'']])))
     = [ExecStatement ''CREATE TABLE a (id INT)''] \<and>
   map (\<lambda>e. (HistoryEntry.Group e, HistoryEntry.Version e, Status e))
     (table (snd (Apply quietEnv (historyDB [])
         [migration ''users'' 3 [''CREATE TABLE a (id INT)''],
          migration ''users'' 3 [''CREATE TABLE b (id INT)'']])))
     = [(''users'', 3, ''success'')]"
proof -
  have v: "versionRows (historyDB []) = [Inr (runes ''PostgreSQL 12.2'')]"
    by (simp add: historyDB_def)
  show ?thesis
    unfolding Apply_loaded [OF quiet_version [OF v] quiet_CreateTable quiet_History]
    by (simp add: Apply_eval)
qed

subsection \<open>Statements the database refuses\<close>

lemma refused_Nil [simp]: "\<not> refusedStatement env before []"
  by (simp add: refusedStatement_def)

lemma refused_Cons:
  "refusedStatement env before (c # cs) \<longleftrightarrow>
     (\<exists>s. c = ExecStatement s \<and> fault env before c \<noteq> None)
     \<or> refusedStatement env (before @ [c]) cs"
proof
  assume "refusedStatement env before (c # cs)"
  then obtain pre s post where *: "c # cs = pre @ ExecStatement s # post"
    "fault env (before @ pre) (ExecStatement s) \<noteq> None"
    unfolding refusedStatement_def by blast
  show "(\<exists>s. c = ExecStatement s \<and> fault env before c \<noteq> None)
     \<or> refusedStatement env (before @ [c]) cs"
  proof (cases pre)
    case Nil
    with * show ?thesis by auto
  next
    case (Cons a pre')
    with * have "cs = pre' @ ExecStatement s # post"
      "fault env ((before @ [c]) @ pre') (ExecStatement s) \<noteq> None" by auto
    then show ?thesis unfolding refusedStatement_def by blast
  qed
next
  assume "(\<exists>s. c = ExecStatement s \<and> fault env before c \<noteq> None)
     \<or> refusedStatement env (before @ [c]) cs"
  then show "refusedStatement env before (c # cs)"
  proof
    assume "\<exists>s. c = ExecStatement s \<and> fault env before c \<noteq> None"
    then obtain s where "c # cs = [] @ ExecStatement s # cs"
      "fault env (before @ []) (ExecStatement s) \<noteq> None" by auto
    then show ?thesis unfolding refusedStatement_def by blast
  next
    assume "refusedStatement env (before @ [c]) cs"
    then obtain pre s post where "cs = pre @ ExecStatement s # post"
      "fault env ((before @ [c]) @ pre) (ExecStatement s) \<noteq> None"
      unfolding refusedStatement_def by blast
    then have "c # cs = (c # pre) @ ExecStatement s # post"
      "fault env (before @ (c # pre)) (ExecStatement s) \<noteq> None" by auto
    then show ?thesis unfolding refusedStatement_def by blast
  qed
qed

lemma refused_append:
  "refusedStatement env before (xs @ ys) \<longleftrightarrow>
     refusedStatement env before xs \<or> refusedStatement env (before @ xs) ys"
  by (induction xs arbitrary: before) (auto simp: refused_Cons)

lemma execute_accepts:
  "execute env db stmts = (None, db') \<Longrightarrow>
     \<not> refusedStatement env (trace db) (map ExecStatement stmts)"
proof (induction stmts arbitrary: db)
  case Nil
  then show ?case by simp
next
  case (Cons s stmts)
  from Cons.prems have f: "fault env (trace db) (ExecStatement s) = None"
    and "execute env (db\<lparr>trace := trace db @ [ExecStatement s],
                         table := effect env (trace db) s (table db)\<rparr>) stmts = (None, db')"
    by (auto simp: Exec_statement split: option.splits if_splits)
  from Cons.IH [OF this(2)] f show ?case by (simp add: refused_Cons)
qed

subsection \<open>The outcomes of one migration\<close>




lemma applyMigration_None_accepts:
  assumes "applyMigration env t db m = (None, db')"
  shows "\<not> refusedStatement env (trace db @ [ExecInsert t (newEntry env db m)])
           (map ExecStatement (Statements m))"
proof -
  let ?e0 = "newEntry env db m"
  obtain ri db1 where ins: "insert_entry env t db ?e0 = (ri, db1)" by fastforce
  with assms have ri: "ri = None"
    using applyMigration_insert [of env t db m] by (cases ri) auto
  from ins ri have db1: "db1 = db\<lparr>trace := trace db @ [ExecInsert t ?e0], table := table db @ [?e0]\<rparr>"
    using Exec_insert_ok [of env db t ?e0 db1] by (simp_all add: insert_entry_def)
  obtain re db2 where ex: "execute env db1 (Statements m) = (re, db2)" by fastforce
  with assms ins ri have re: "re = None"
    using applyMigration_execute [of env t db m db1] by (cases re) auto
  show ?thesis
    using execute_accepts [OF ex [unfolded re]] by (simp add: db1)
qed


lemma statementsOf_statements:
  "statementsOf (map ExecStatement stmts @ calls) = stmts @ statementsOf calls"
  by (induction stmts) simp_all


lemma insertedKeys_append [simp]:
  "insertedKeys (xs @ ys) = insertedKeys xs @ insertedKeys ys"
  by (simp add: insertedKeys_def)

lemma insertedKeys_Cons_insert [simp]:
  "insertedKeys (ExecInsert t e # cs) = entryKey e # insertedKeys cs"
  by (simp add: insertedKeys_def)

lemma insertedKeys_Nil [simp]: "insertedKeys [] = []"
  by (simp add: insertedKeys_def)

subsection \<open>The loops over the candidates\<close>

lemma applyCandidates_append:
  "applyCandidates env t db (xs @ ys) =
     (case applyCandidates env t db xs of
        (Some err, db1) \<Rightarrow> (Some err, db1)
      | (None, db1) \<Rightarrow> applyCandidates env t db1 ys)"
  by (induction xs arbitrary: db) (auto split: prod.splits option.splits)

lemma applyGroups_concat:
  "applyGroups env t db groups = applyCandidates env t db (concat groups)"
  by (induction groups arbitrary: db)
    (auto simp: applyCandidates_append split: prod.splits option.splits)


text \<open>The blocks of a list of calls.\<close>

lemma statementsOf_append:
  assumes "calls = [] \<or> (\<exists>t e rest. calls = ExecInsert t e # rest)"
  shows "statementsOf (xs @ calls) = statementsOf xs"
proof (induction xs)
  case Nil
  from assms show ?case by auto
next
  case (Cons c xs)
  then show ?case by (cases c) simp_all
qed

lemma executed_append:
  assumes "calls = [] \<or> (\<exists>t e rest. calls = ExecInsert t e # rest)"
  shows "executed (xs @ calls) = executed xs @ executed calls"
proof (induction xs)
  case Nil
  then show ?case by simp
next
  case (Cons c xs)
  then show ?case by (cases c) (simp_all add: statementsOf_append [OF assms])
qed

lemma executed_none: "insertedKeys calls = [] \<Longrightarrow> executed calls = []"
proof (induction calls)
  case Nil
  then show ?case by simp
next
  case (Cons c calls)
  then show ?case by (cases c) (simp_all add: insertedKeys_def)
qed

lemma leavesHistory_Nil [simp]: "leavesHistory env []"
  by (simp add: leavesHistory_def)

lemma leavesHistory_Cons:
  "leavesHistory env (m # ms) \<longleftrightarrow> harmless env (Statements m) \<and> leavesHistory env ms"
  by (simp add: leavesHistory_def)

lemma leavesHistory_subset:
  "leavesHistory env ms \<Longrightarrow> set cs \<subseteq> set ms \<Longrightarrow> leavesHistory env cs"
  by (auto simp: leavesHistory_def)

text \<open>
  A list of candidates that was applied to the end: the calls are one complete block
  for every candidate, in their order.  When the statements leave the history table
  alone, the table has gained one \<open>success\<close> row for every candidate.
\<close>

lemma applyCandidates_None:
  assumes "applyCandidates env t db cs = (None, db')"
  shows "\<exists>calls.
      trace db' = trace db @ calls \<and>
      versionRows db' = versionRows db \<and>
      insertedKeys calls = map migrationKey cs \<and>
      executed calls = map block cs \<and>
      (calls = [] \<or> (\<exists>t' e rest. calls = ExecInsert t' e # rest)) \<and>
      \<not> refusedStatement env (trace db) calls \<and>
      (leavesHistory env cs \<longrightarrow>
        (\<exists>rows. table db' = table db @ rows \<and>
           list_all2 (\<lambda>row m. entryKey row = migrationKey m \<and> Checksum row = hash m
                        \<and> Status row = Success) rows cs \<and>
           distinct (map entryKey rows) \<and>
           entryKey ` set rows \<inter> entryKey ` set (table db) = {} \<and>
           (\<forall>t' e. ExecUpdate t' e \<in> set calls \<and> Status e = Success \<longrightarrow> e \<in> set rows)))"
  using assms
proof (induction cs arbitrary: db)
  case Nil
  then have "db' = db" by simp
  then show ?case by (intro exI [of _ "[]"]) simp
next
  case (Cons c cs)
  obtain r1 db1 where step: "applyMigration env t db c = (r1, db1)" by fastforce
  with Cons.prems have r1: "r1 = None" by (cases r1) auto
  with step Cons.prems have rest: "applyCandidates env t db1 cs = (None, db')" by simp
  let ?e0 = "newEntry env db c"
  from applyMigration_None [OF step [unfolded r1]] obtain d where
    db1: "trace db1 = trace db @ ExecInsert t ?e0 # map ExecStatement (Statements c)
                        @ [ExecUpdate t (succeeded ?e0 d)]"
      "versionRows db1 = versionRows db"
      "harmless env (Statements c) \<longrightarrow> table db1 = table db @ [succeeded ?e0 d]"
    and fresh: "migrationKey c \<notin> entryKey ` set (table db)"
    by blast
  let ?row = "succeeded ?e0 d"
  let ?calls1 = "ExecInsert t ?e0 # map ExecStatement (Statements c) @ [ExecUpdate t ?row]"
  have acc1: "\<not> refusedStatement env (trace db) ?calls1"
    using applyMigration_None_accepts [OF step [unfolded r1]]
    by (simp add: refused_Cons refused_append)
  from Cons.IH [OF rest] obtain calls where
    IH: "trace db' = trace db1 @ calls"
      "versionRows db' = versionRows db1"
      "insertedKeys calls = map migrationKey cs"
      "executed calls = map block cs"
      "calls = [] \<or> (\<exists>t' e rest. calls = ExecInsert t' e # rest)"
      "\<not> refusedStatement env (trace db1) calls"
      "leavesHistory env cs \<longrightarrow>
        (\<exists>rows. table db' = table db1 @ rows \<and>
           list_all2 (\<lambda>row m. entryKey row = migrationKey m \<and> Checksum row = hash m
                        \<and> Status row = Success) rows cs \<and>
           distinct (map entryKey rows) \<and>
           entryKey ` set rows \<inter> entryKey ` set (table db1) = {} \<and>
           (\<forall>t' e. ExecUpdate t' e \<in> set calls \<and> Status e = Success \<longrightarrow> e \<in> set rows))"
    by blast
  have row: "entryKey ?row = migrationKey c" "Checksum ?row = hash c" "Status ?row = Success"
    by (simp_all add: succeeded_def newEntry_def entryKey_def migrationKey_def)
  have 1: "trace db' = trace db @ (?calls1 @ calls)" using IH(1) by (simp add: db1(1))
  have 2: "versionRows db' = versionRows db" using IH(2) by (simp add: db1(2))
  have 3: "insertedKeys (?calls1 @ calls) = map migrationKey (c # cs)"
    using IH(3) by (simp add: insertedKeys_def)
  have "executed ?calls1 = [block c]"
    by (simp add: statementsOf_statements executed_none insertedKeys_def block_def)
  then have 4: "executed (?calls1 @ calls) = map block (c # cs)"
    unfolding executed_append [OF IH(5)] using IH(4) by simp
  have 5: "?calls1 @ calls = [] \<or> (\<exists>t' e rest. ?calls1 @ calls = ExecInsert t' e # rest)"
    by simp
  have 6: "\<not> refusedStatement env (trace db) (?calls1 @ calls)"
    unfolding refused_append using acc1 IH(6) by (simp add: db1(1))
  have 7: "\<exists>rows. table db' = table db @ rows \<and>
           list_all2 (\<lambda>row m. entryKey row = migrationKey m \<and> Checksum row = hash m
                        \<and> Status row = Success) rows (c # cs) \<and>
           distinct (map entryKey rows) \<and>
           entryKey ` set rows \<inter> entryKey ` set (table db) = {} \<and>
           (\<forall>t' e. ExecUpdate t' e \<in> set (?calls1 @ calls) \<and> Status e = Success
               \<longrightarrow> e \<in> set rows)"
    if "leavesHistory env (c # cs)"
  proof -
    from that have h: "harmless env (Statements c)" "leavesHistory env cs"
      by (simp_all add: leavesHistory_Cons)
    from db1(3) h(1) have t1: "table db1 = table db @ [?row]" by simp
    from IH(7) h(2) obtain rows where
      R: "table db' = table db1 @ rows"
        "list_all2 (\<lambda>row m. entryKey row = migrationKey m \<and> Checksum row = hash m
                        \<and> Status row = Success) rows cs"
        "distinct (map entryKey rows)"
        "entryKey ` set rows \<inter> entryKey ` set (table db1) = {}"
        "\<forall>t' e. ExecUpdate t' e \<in> set calls \<and> Status e = Success \<longrightarrow> e \<in> set rows"
      by blast
    have a: "table db' = table db @ (?row # rows)" using R(1) by (simp add: t1)
    have b: "list_all2 (\<lambda>row m. entryKey row = migrationKey m \<and> Checksum row = hash m
                   \<and> Status row = Success) (?row # rows) (c # cs)"
      using R(2) row by simp
    have c: "distinct (map entryKey (?row # rows))"
      using R(3,4) row(1) by (auto simp: t1)
    have d: "entryKey ` set (?row # rows) \<inter> entryKey ` set (table db) = {}"
      using R(4) fresh row(1) by (auto simp: t1)
    have e: "\<forall>t' e. ExecUpdate t' e \<in> set (?calls1 @ calls) \<and> Status e = Success
             \<longrightarrow> e \<in> set (?row # rows)"
      using R(5) by auto
    from a b c d e show ?thesis by (intro exI [of _ "?row # rows"]) blast
  qed
  show ?case
    using 1 2 3 4 5 6 7 by (intro exI [of _ "?calls1 @ calls"]) blast
qed

subsection \<open>Grouping and sorting the candidates\<close>

lemma alreadyApplied_Inr:
  "alreadyApplied m entries = Inr b \<Longrightarrow> b = (\<not> pending entries m)"
  by (induction entries)
    (auto simp: pending_def entryKey_def migrationKey_def split: if_splits)

lemma groupAt_Nil [simp]: "groupAt [] g = []"
  by (simp add: groupAt_def)

lemma groupAt_update:
  "groupAt (AList.update k v groups) g = (if g = k then v else groupAt groups g)"
  by (simp add: groupAt_def update_conv')

lemma groupAt_absent: "g \<notin> fst ` set groups \<Longrightarrow> groupAt groups g = []"
  by (simp add: groupAt_def map_of_eq_None_iff [THEN iffD2])

lemma groupBy_Inr_all:
  assumes "groupBy entries ms G0 = Inr G"
  shows "(\<forall>g. groupAt G g
            = groupAt G0 g @ filter (\<lambda>m. Migration.Group m = g \<and> pending entries m) ms) \<and>
         (distinct (map fst G0) \<longrightarrow> distinct (map fst G)) \<and>
         (\<forall>m\<in>set ms. \<exists>b. alreadyApplied m entries = Inr b)"
  using assms
proof (induction ms arbitrary: G0)
  case Nil
  then show ?case by simp
next
  case (Cons m ms)
  from Cons.prems obtain b where b: "alreadyApplied m entries = Inr b"
    by (cases "alreadyApplied m entries") auto
  define G1 where "G1 = (if b then G0 else
      AList.update (Migration.Group m) (groupAt G0 (Migration.Group m) @ [m]) G0)"
  from Cons.prems b have rest: "groupBy entries ms G1 = Inr G"
    by (cases b) (auto simp: G1_def)
  have pend: "b = (\<not> pending entries m)" using b by (rule alreadyApplied_Inr)
  note IH = Cons.IH [OF rest]
  have "groupAt G g = groupAt G0 g
          @ filter (\<lambda>m. Migration.Group m = g \<and> pending entries m) (m # ms)" for g
  proof -
    from IH have "groupAt G g
        = groupAt G1 g @ filter (\<lambda>m. Migration.Group m = g \<and> pending entries m) ms"
      by blast
    then show ?thesis using pend by (auto simp: G1_def groupAt_update)
  qed
  moreover have "distinct (map fst G)" if "distinct (map fst G0)"
  proof -
    from that have "distinct (map fst G1)" by (simp add: G1_def distinct_update)
    with IH show ?thesis by blast
  qed
  moreover have "\<forall>x\<in>set (m # ms). \<exists>b. alreadyApplied x entries = Inr b"
    using IH b by simp
  ultimately show ?case by blast
qed

lemma validSort_set: "validSort f \<Longrightarrow> set (f xs) = set xs"
  unfolding validSort_def by (metis set_mset_mset)


text \<open>
  The uniqueness check replaces the candidates of every group it visits by the sorted
  ones, and visits no group twice.
\<close>

lemma uniquenessCheck_Inr_all:
  assumes "uniquenessCheck env order G = Inr G'" "distinct order"
  shows "(\<forall>g. groupAt G' g = (if g \<in> set order then sortSlice env (groupAt G g)
                               else groupAt G g)) \<and>
         fst ` set G' = fst ` set G \<union> set order \<and>
         (distinct (map fst G) \<longrightarrow> distinct (map fst G'))"
  using assms
proof (induction order arbitrary: G)
  case Nil
  then show ?case by simp
next
  case (Cons k order)
  define G1 where "G1 = AList.update k (sortSlice env (groupAt G k)) G"
  from Cons.prems have rest: "uniquenessCheck env order G1 = Inr G'"
    by (auto simp: G1_def Let_def split: option.splits)
  from Cons.prems(2) have k: "k \<notin> set order" and d: "distinct order" by simp_all
  note IH = Cons.IH [OF rest d]
  have "groupAt G' g = (if g \<in> set (k # order) then sortSlice env (groupAt G g)
                               else groupAt G g)" for g
  proof -
    from IH have "groupAt G' g = (if g \<in> set order then sortSlice env (groupAt G1 g)
                         else groupAt G1 g)"
      by blast
    then show ?thesis
      using k by (auto simp: G1_def groupAt_update)
  qed
  moreover have "fst ` set G' = fst ` set G \<union> set (k # order)"
    using IH by (auto simp: G1_def dom_update)
  moreover have "distinct (map fst G')" if "distinct (map fst G)"
  proof -
    from that have "distinct (map fst G1)" by (simp add: G1_def distinct_update)
    with IH show ?thesis by blast
  qed
  ultimately show ?case by blast
qed

lemma uniquenessCheck_set:
  assumes "validSort (sortSlice env)" "uniquenessCheck env order G = Inr G'"
  shows "set (groupAt G' g) = set (groupAt G g)"
  using assms(2)
proof (induction order arbitrary: G)
  case Nil
  then show ?case by simp
next
  case (Cons k order)
  define G1 where "G1 = AList.update k (sortSlice env (groupAt G k)) G"
  from Cons.prems have rest: "uniquenessCheck env order G1 = Inr G'"
    by (auto simp: G1_def Let_def split: option.splits)
  from Cons.IH [OF rest] have "set (groupAt G' g) = set (groupAt G1 g)" .
  also have "\<dots> = set (groupAt G g)"
    by (simp add: G1_def groupAt_update validSort_set [OF assms(1)])
  finally show ?case .
qed

lemma validRange_set: "validRange f \<Longrightarrow> set (f ks) = set ks"
  unfolding validRange_def by (metis set_mset_mset)

lemma validRange_distinct: "validRange f \<Longrightarrow> distinct (f ks) = distinct ks"
  unfolding validRange_def by (metis distinct_count_atmost_1 set_mset_mset)

lemma concat_single:
  "distinct xs \<Longrightarrow> concat (map (\<lambda>x. if x = g then ys else []) xs) = (if g \<in> set xs then ys else [])"
  by (induction xs) auto

text \<open>
  The candidates in the order in which the last loop takes them: those of one group are
  its pending migrations, as \<open>sort.Slice\<close> left them.
\<close>

lemma candidates_of_group:
  assumes "validRange (rangeCheck env)" "validRange (rangeApply env)"
    and "validSort (sortSlice env)"
    and "groupBy entries ms [] = Inr G"
    and "uniquenessCheck env (rangeCheck env (map fst G)) G = Inr G'"
  shows "filter (\<lambda>m. Migration.Group m = g)
           (concat (map (groupAt G') (rangeApply env (map fst G'))))
         = sortSlice env (pendingOf g entries ms)"
proof -
  let ?order1 = "rangeCheck env (map fst G)"
  let ?order2 = "rangeApply env (map fst G')"
  from groupBy_Inr_all [OF assms(4)] have G: "groupAt G g = pendingOf g entries ms" for g
    by (simp add: pendingOf_def)
  from groupBy_Inr_all [OF assms(4)] have dG: "distinct (map fst G)"
    by simp
  have o1: "set ?order1 = fst ` set G" "distinct ?order1"
    using validRange_set [OF assms(1)] validRange_distinct [OF assms(1)] dG by simp_all
  note U = uniquenessCheck_Inr_all [OF assms(5) o1(2)]
  have keys': "fst ` set G' = fst ` set G" using U o1 by auto
  have dG': "distinct (map fst G')" using U dG by blast
  have o2: "set ?order2 = fst ` set G'" "distinct ?order2"
    using validRange_set [OF assms(2)] validRange_distinct [OF assms(2)] dG' by simp_all
  have members: "set (groupAt G' k) = set (pendingOf k entries ms)" for k
    using uniquenessCheck_set [OF assms(3,5), of k] by (simp add: G)
  have G': "groupAt G' g = sortSlice env (pendingOf g entries ms)" if "g \<in> fst ` set G'"
  proof -
    from U have "groupAt G' g = (if g \<in> set ?order1 then sortSlice env (groupAt G g)
                                 else groupAt G g)"
      by blast
    moreover from that have "g \<in> set ?order1" unfolding o1(1) keys' .
    ultimately show ?thesis by (simp only: G if_True)
  qed
  have block: "filter (\<lambda>m. Migration.Group m = g) (groupAt G' k)
      = (if k = g then groupAt G' g else [])" for k
  proof -
    have in_k: "\<forall>m\<in>set (groupAt G' k). Migration.Group m = k"
      unfolding members pendingOf_def by simp
    show ?thesis
    proof (cases "k = g")
      case True
      with in_k have "\<forall>m\<in>set (groupAt G' k). Migration.Group m = g" by simp
      then have "filter (\<lambda>m. Migration.Group m = g) (groupAt G' k) = groupAt G' k"
        by (rule filter_True)
      with True show ?thesis by simp
    next
      case False
      with in_k have "\<forall>m\<in>set (groupAt G' k). \<not> Migration.Group m = g" by simp
      then have "filter (\<lambda>m. Migration.Group m = g) (groupAt G' k) = []"
        by (rule filter_False)
      with False show ?thesis by simp
    qed
  qed
  have "filter (\<lambda>m. Migration.Group m = g) (concat (map (groupAt G') ?order2))
      = concat (map (\<lambda>k. if k = g then groupAt G' g else []) ?order2)"
    by (simp add: filter_concat comp_def block)
  also have "\<dots> = (if g \<in> set ?order2 then groupAt G' g else [])"
    using o2(2) by (rule concat_single)
  also have "\<dots> = sortSlice env (pendingOf g entries ms)"
  proof (cases "g \<in> fst ` set G'")
    case True
    then have "g \<in> set ?order2" unfolding o2(1) .
    with G' [OF True] show ?thesis by (simp only: if_True)
  next
    case False
    then have "g \<notin> fst ` set G" unfolding keys' .
    then have "groupAt G g = []" by (rule groupAt_absent)
    then have "pendingOf g entries ms = []" unfolding G .
    then have "sortSlice env (pendingOf g entries ms) = []"
      using validSort_set [OF assms(3), of "pendingOf g entries ms"] by simp
    moreover from False have "g \<notin> set ?order2" unfolding o2(1) .
    ultimately show ?thesis by (simp only: if_False)
  qed
  finally show ?thesis .
qed

lemma candidates_set:
  assumes "validRange (rangeCheck env)" "validRange (rangeApply env)"
    and "validSort (sortSlice env)"
    and "groupBy entries ms [] = Inr G"
    and "uniquenessCheck env (rangeCheck env (map fst G)) G = Inr G'"
  shows "set (concat (map (groupAt G') (rangeApply env (map fst G'))))
         = {m \<in> set ms. pending entries m}"
proof -
  let ?cands = "concat (map (groupAt G') (rangeApply env (map fst G')))"
  have "m \<in> set ?cands \<longleftrightarrow> m \<in> set ms \<and> pending entries m" for m
  proof -
    have "m \<in> set ?cands \<longleftrightarrow> m \<in> set (filter (\<lambda>x. Migration.Group x = Migration.Group m) ?cands)"
      by simp
    also have "\<dots> \<longleftrightarrow> m \<in> set ms \<and> pending entries m"
      unfolding candidates_of_group [OF assms]
      by (auto simp: validSort_set [OF assms(3)] pendingOf_def)
    finally show ?thesis .
  qed
  then show ?thesis by blast
qed

lemma Apply_cases:
  assumes "Apply env db ms = (r, db')"
  obtains (early) calls where "r \<noteq> None" "table db' = table db" "trace db' = trace db @ calls"
      "set calls \<subseteq> {QueryVersion, ExecCreateTable, QueryHistory}"
    | (run) t G G' where "dirtyCheck (table db) = None" "groupBy (table db) ms [] = Inr G"
      "uniquenessCheck env (rangeCheck env (map fst G)) G = Inr G'"
      "applyCandidates env t (loaded db)
         (concat (map (groupAt G') (rangeApply env (map fst G')))) = (r, db')"
proof -
  obtain rv db1 where v: "version env db = (rv, db1)" by fastforce
  then have db1: "db1 = db\<lparr>trace := trace db @ [QueryVersion]\<rparr>" by (rule version_db)
  show thesis
  proof (cases rv)
    case (Inl e)
    with v assms have "r \<noteq> None" "db' = db1" by (auto simp: Apply_def)
    then show ?thesis using db1 by (intro early [of "[QueryVersion]"]) auto
  next
    case (Inr t)
    obtain rc db2 where c: "CreateTable env db1 = (rc, db2)" by fastforce
    then have db2: "db2 = db1\<lparr>trace := trace db1 @ [ExecCreateTable]\<rparr>" by (rule CreateTable_db)
    show ?thesis
    proof (cases rc)
      case (Some e)
      with v Inr c assms have "r \<noteq> None" "db' = db2" by (auto simp: Apply_def)
      then show ?thesis using db1 db2 by (intro early [of "[QueryVersion, ExecCreateTable]"]) auto
    next
      case None
      obtain rh db3 where h: "History env db2 = (rh, db3)" by fastforce
      then have db3: "db3 = db2\<lparr>trace := trace db2 @ [QueryHistory]\<rparr>" by (rule History_db)
      show ?thesis
      proof (cases rh)
        case (Inl e)
        with v Inr c None h assms have "r \<noteq> None" "db' = db3" by (auto simp: Apply_def)
        then show ?thesis using db1 db2 db3
          by (intro early [of "[QueryVersion, ExecCreateTable, QueryHistory]"]) auto
      next
        case entries: (Inr entries)
        note L = Apply_loaded [OF v [unfolded Inr] c [unfolded None] h [unfolded entries], of ms]
        show ?thesis
        proof (cases "dirtyCheck (table db)")
          case (Some e)
          with L assms have "r \<noteq> None" "db' = loaded db" by auto
          then show ?thesis
            by (intro early [of "[QueryVersion, ExecCreateTable, QueryHistory]"])
              (auto simp: loaded_def)
        next
          case clean: None
          show ?thesis
          proof (cases "groupBy (table db) ms []")
            case (Inl e)
            with L clean assms have "r \<noteq> None" "db' = loaded db" by auto
            then show ?thesis
              by (intro early [of "[QueryVersion, ExecCreateTable, QueryHistory]"])
                (auto simp: loaded_def)
          next
            case G: (Inr G)
            show ?thesis
            proof (cases "uniquenessCheck env (rangeCheck env (map fst G)) G")
              case (Inl e)
              with L clean G assms have "r \<noteq> None" "db' = loaded db" by auto
              then show ?thesis
                by (intro early [of "[QueryVersion, ExecCreateTable, QueryHistory]"])
                  (auto simp: loaded_def)
            next
              case G': (Inr G')
              with L clean G assms have "applyCandidates env t (loaded db)
                  (concat (map (groupAt G') (rangeApply env (map fst G')))) = (r, db')"
                by (simp add: applyGroups_concat)
              with clean G G' show ?thesis by (rule run)
            qed
          qed
        qed
      qed
    qed
  qed
qed

subsection \<open>The order of execution\<close>





lemma validRange_id: "validRange (\<lambda>ks. ks)"
  by (simp add: validRange_def)

lemma quietEnv_ranges: "validRange (rangeCheck quietEnv)" "validRange (rangeApply quietEnv)"
  by (simp_all add: quietEnv_def validRange_id)

lemma quietEnv_sort: "validSort (sortSlice quietEnv)"
  by (simp add: quietEnv_def validSort_def)


subsection \<open>A statement that fails\<close>











subsection \<open>A second call\<close>

lemma alreadyApplied_append:
  "alreadyApplied m (xs @ ys) =
     (case alreadyApplied m xs of Inr False \<Rightarrow> alreadyApplied m ys | res \<Rightarrow> res)"
  by (induction xs) (auto split: sum.splits bool.splits)

lemma rows_keys:
  assumes "list_all2 (\<lambda>row m. entryKey row = migrationKey m \<and> Checksum row = hash m
                        \<and> Status row = Success) rows cs"
    and "m \<in> set cs"
  shows "migrationKey m \<in> entryKey ` set rows"
  using assms by (induction rows cs rule: list_all2_induct) auto

lemma rows_success:
  assumes "list_all2 (\<lambda>row m. entryKey row = migrationKey m \<and> Checksum row = hash m
                        \<and> Status row = Success) rows cs"
  shows "\<forall>e\<in>set rows. Status e = Success"
  using assms by (induction rows cs rule: list_all2_induct) auto

lemma rows_applied:
  assumes "list_all2 (\<lambda>row m. entryKey row = migrationKey m \<and> Checksum row = hash m
                        \<and> Status row = Success) rows cs"
    and "distinct (map entryKey rows)" "m \<in> set cs"
  shows "alreadyApplied m rows = Inr True"
  using assms
proof (induction rows cs rule: list_all2_induct)
  case Nil
  then show ?case by simp
next
  case (Cons row rows c cs)
  show ?case
  proof (cases "entryKey row = migrationKey m")
    case True
    have "m = c"
    proof (rule ccontr)
      assume "m \<noteq> c"
      with Cons.prems(2) have "m \<in> set cs" by simp
      from rows_keys [OF Cons.hyps(2) this] True Cons.prems(1) show False by auto
    qed
    with Cons.hyps(1) True show ?thesis
      by (auto simp: entryKey_def migrationKey_def)
  next
    case False
    with Cons.hyps(1) have "m \<noteq> c" by auto
    with Cons.prems have "alreadyApplied m rows = Inr True"
      by (intro Cons.IH) auto
    with False show ?thesis by (auto simp: entryKey_def migrationKey_def)
  qed
qed

lemma groupBy_all_applied:
  "\<forall>m\<in>set ms. alreadyApplied m entries = Inr True \<Longrightarrow> groupBy entries ms G = Inr G"
  by (induction ms) auto

lemma uniquenessCheck_empty:
  assumes "validSort (sortSlice env)" "\<forall>g. groupAt G g = []"
  shows "\<exists>G'. uniquenessCheck env order G = Inr G' \<and> (\<forall>g. groupAt G' g = [])"
  using assms(2)
proof (induction order arbitrary: G)
  case Nil
  then show ?case by simp
next
  case (Cons k order)
  have "set (sortSlice env []) = {}"
    using assms(1) by (simp add: validSort_set)
  then have sorted: "sortSlice env [] = []" by simp
  have "\<forall>g. groupAt (AList.update k [] G) g = []"
    using Cons.prems by (simp add: groupAt_update)
  from Cons.IH [OF this] Cons.prems show ?case by (simp add: sorted)
qed

lemma applyGroups_empty:
  "\<forall>c\<in>set groups. c = [] \<Longrightarrow> applyGroups env t db groups = (None, db)"
  by (induction groups) auto

text \<open>
  C7, amended.  The statements of the migrations \<open>M\<close> leave the history table alone.
  After a call of \<open>Apply\<close> with \<open>M\<close> has returned \<open>nil\<close>, a second call with migrations
  of \<open>M\<close> that gets as far as loading the history returns \<open>nil\<close>; it makes the three
  calls that load the history and no other: it executes no statement and inserts no
  row, and the table is as the first call left it.
\<close>

theorem Apply_idempotent:
  assumes "validRange (rangeCheck env)" "validRange (rangeApply env)"
    and "validSort (sortSlice env)" "validSort (sortSlice env')"
    and "leavesHistory env migrations"
    and "Apply env db migrations = (None, db')"
    and "set migrations' \<subseteq> set migrations"
    and "version env' db' = (Inr dbType, db1)" "CreateTable env' db1 = (None, db2)"
    and "History env' db2 = (Inr entries, db3)"
  shows "Apply env' db' migrations'
           = (None, db'\<lparr>trace := trace db' @ [QueryVersion, ExecCreateTable, QueryHistory]\<rparr>)"
  using assms(6)
proof (cases rule: Apply_cases)
  case (early calls)
  then show ?thesis by simp
next
  case (run t G G')
  let ?cands = "concat (map (groupAt G') (rangeApply env (map fst G')))"
  let ?R = "\<lambda>row m. entryKey row = migrationKey m \<and> Checksum row = hash m \<and> Status row = Success"
  have cands: "set ?cands = {m \<in> set migrations. pending (table db) m}"
    using assms(1,2,3) run(2,3) by (rule candidates_set)
  then have "set ?cands \<subseteq> set migrations" by blast
  with assms(5) have "leavesHistory env ?cands" by (rule leavesHistory_subset)
  with applyCandidates_None [OF run(4)] obtain rows where
    rows: "table db' = table db @ rows" "list_all2 ?R rows ?cands" "distinct (map entryKey rows)"
    by (auto simp: loaded_def)
  have applied: "alreadyApplied m (table db') = Inr True" if "m \<in> set migrations" for m
  proof -
    from groupBy_Inr_all [OF run(2)] that obtain b where
      b: "alreadyApplied m (table db) = Inr b" by blast
    show ?thesis
    proof (cases b)
      case True
      with b show ?thesis by (simp add: rows(1) alreadyApplied_append)
    next
      case False
      with alreadyApplied_Inr [OF b] that
      have "m \<in> {m \<in> set migrations. pending (table db) m}" by simp
      then have "m \<in> set ?cands" unfolding cands .
      from rows_applied [OF rows(2,3) this] b False show ?thesis
        by (simp add: rows(1) alreadyApplied_append)
    qed
  qed
  have "\<forall>e\<in>set rows. Status e = Success"
    using rows(2) by (rule rows_success)
  moreover have "\<forall>e\<in>set (table db). Status e = Success"
    using run(1) by (simp add: dirtyCheck_None_iff)
  ultimately have clean: "dirtyCheck (table db') = None"
    by (simp add: dirtyCheck_None_iff rows(1) ball_Un)
  have grouped: "groupBy (table db') migrations' [] = Inr []"
    using applied assms(7) by (intro groupBy_all_applied) auto
  obtain G'' where G'': "uniquenessCheck env' (rangeCheck env' (map fst [])) [] = Inr G''"
    "\<forall>g. groupAt G'' g = []"
    using uniquenessCheck_empty [OF assms(4), of "[]"] by auto
  have "applyGroups env' dbType (loaded db')
      (map (groupAt G'') (rangeApply env' (map fst G''))) = (None, loaded db')"
    using G''(2) by (intro applyGroups_empty) simp
  then have "Apply env' db' migrations' = (None, loaded db')"
    using clean grouped G''(1) by (simp add: Apply_loaded [OF assms(8-10)])
  then show ?thesis by (simp add: loaded_def)
qed

lemma quietEnv_leaves: "leavesHistory quietEnv ms"
  by (simp add: leavesHistory_def harmless_def quietEnv_def)

theorem Apply_idempotent_witness:
  "fst (Apply quietEnv (historyDB [])
         [migration ''users'' 1 [''CREATE TABLE users (id INT)''],
          migration ''users'' 2 [''ALTER TABLE users ADD name TEXT'']]) = None \<and>
   Apply quietEnv
     (snd (Apply quietEnv (historyDB [])
         [migration ''users'' 1 [''CREATE TABLE users (id INT)''],
          migration ''users'' 2 [''ALTER TABLE users ADD name TEXT'']]))
     [migration ''users'' 1 [''CREATE TABLE users (id INT)''],
      migration ''users'' 2 [''ALTER TABLE users ADD name TEXT'']]
   = (None,
      (snd (Apply quietEnv (historyDB [])
         [migration ''users'' 1 [''CREATE TABLE users (id INT)''],
          migration ''users'' 2 [''ALTER TABLE users ADD name TEXT'']]))
      \<lparr>trace := trace (snd (Apply quietEnv (historyDB [])
         [migration ''users'' 1 [''CREATE TABLE users (id INT)''],
          migration ''users'' 2 [''ALTER TABLE users ADD name TEXT'']]))
        @ [QueryVersion, ExecCreateTable, QueryHistory]\<rparr>)"
proof -
  let ?ms = "[migration ''users'' 1 [''CREATE TABLE users (id INT)''],
              migration ''users'' 2 [''ALTER TABLE users ADD name TEXT'']]"
  let ?db' = "snd (Apply quietEnv (historyDB []) ?ms)"
  have v: "versionRows (historyDB []) = [Inr (runes ''PostgreSQL 12.2'')]"
    by (simp add: historyDB_def)
  note L = Apply_loaded [OF quiet_version [OF v] quiet_CreateTable quiet_History]
  have first: "fst (Apply quietEnv (historyDB []) ?ms) = None"
    unfolding L by (simp add: Apply_eval)
  then have run: "Apply quietEnv (historyDB []) ?ms = (None, ?db')"
    by (simp add: prod_eq_iff)
  have v': "versionRows ?db' = [Inr (runes ''PostgreSQL 12.2'')]"
    unfolding L by (simp add: Apply_eval)
  have sub: "set ?ms \<subseteq> set ?ms" by simp
  from Apply_idempotent [OF quietEnv_ranges quietEnv_sort quietEnv_sort quietEnv_leaves run sub
      quiet_version [OF v'] quiet_CreateTable quiet_History] first
  show ?thesis by simp
qed

text \<open>
  C7 as stated fails: the one statement of the migration empties the history table.
  The first call inserts the row of the migration, runs the statement, which deletes
  the row, and returns \<open>nil\<close>, the update of the row to \<open>success\<close> finding nothing to
  change.  The second call finds no row of the migration: it inserts the row and
  executes the statement once more, and returns \<open>nil\<close>.
\<close>

theorem Apply_idempotent_counterexample:
  "fst (Apply (deletingEnv ''DELETE FROM migration_schema_history'') (historyDB [])
         [migration ''users'' 1 [''DELETE FROM migration_schema_history'']]) = None \<and>
   fst (Apply (deletingEnv ''DELETE FROM migration_schema_history'')
         (snd (Apply (deletingEnv ''DELETE FROM migration_schema_history'') (historyDB [])
            [migration ''users'' 1 [''DELETE FROM migration_schema_history'']]))
         [migration ''users'' 1 [''DELETE FROM migration_schema_history'']]) = None \<and>
   executed
     (newCalls
        (snd (Apply (deletingEnv ''DELETE FROM migration_schema_history'') (historyDB [])
           [migration ''users'' 1 [''DELETE FROM migration_schema_history'']]))
        (snd (Apply (deletingEnv ''DELETE FROM migration_schema_history'')
           (snd (Apply (deletingEnv ''DELETE FROM migration_schema_history'') (historyDB [])
              [migration ''users'' 1 [''DELETE FROM migration_schema_history'']]))
           [migration ''users'' 1 [''DELETE FROM migration_schema_history'']])))
     = [((''users'', 1), [''DELETE FROM migration_schema_history''])]"
proof -
  let ?env = "deletingEnv ''DELETE FROM migration_schema_history''"
  let ?ms = "[migration ''users'' 1 [''DELETE FROM migration_schema_history'']]"
  have version: "version ?env db = (Inr PostgreSQL, db\<lparr>trace := trace db @ [QueryVersion]\<rparr>)"
    if "versionRows db = [Inr (runes ''PostgreSQL 12.2'')]" for db
    using that
    by (simp add: version_def QueryVersionRows_def versionOfBanner_def deletingEnv_def quietEnv_def
        runes_simps ToLower_def toLowerRune_def)
  have create: "CreateTable ?env db = (None, db\<lparr>trace := trace db @ [ExecCreateTable]\<rparr>)" for db
    by (simp add: CreateTable_def Exec_create deletingEnv_def quietEnv_def)
  have history: "History ?env db = (Inr (table db), db\<lparr>trace := trace db @ [QueryHistory]\<rparr>)" for db
    by (simp add: History_def QueryHistoryRows_def scanHistoryRows_Inr deletingEnv_def quietEnv_def)
  define db1 where "db1 = snd (Apply ?env (historyDB []) ?ms)"
  have v: "versionRows (historyDB []) = [Inr (runes ''PostgreSQL 12.2'')]"
    by (simp add: historyDB_def)
  note L = Apply_loaded [OF version [OF v] create history]
  have first: "fst (Apply ?env (historyDB []) ?ms) = None"
    unfolding L by (simp add: Apply_eval deletingEnv_def)
  have v1: "versionRows db1 = [Inr (runes ''PostgreSQL 12.2'')]"
    unfolding db1_def L by (simp add: Apply_eval deletingEnv_def)
  have t1: "table db1 = []"
    unfolding db1_def L by (simp add: Apply_eval deletingEnv_def)
  note L1 = Apply_loaded [OF version [OF v1] create history]
  have second: "fst (Apply ?env db1 ?ms) = None"
    unfolding L1 t1 by (simp add: Apply_eval deletingEnv_def t1)
  have blocks: "executed (newCalls db1 (snd (Apply ?env db1 ?ms)))
      = [((''users'', 1), [''DELETE FROM migration_schema_history''])]"
    unfolding L1 t1 by (simp add: Apply_eval deletingEnv_def t1 newCalls_def)
  from first second blocks show ?thesis
    unfolding db1_def by simp
qed

end
